theory Spec2Isabelle
  imports Complex_Main "HOL-Library.Sublist"
begin

section \<open>Numbers and shared data (lib/types.ts)\<close>

text \<open>
  TypeScript \<open>number\<close> values are modelled as \<^typ>\<open>real\<close>: the coordinates, limits and
  telemetry values the theorems below evaluate are small integers, on which the
  arithmetic of the source is exact. An optional field (\<open>z?: number\<close>) is an
  \<^typ>\<open>real option\<close>, \<open>None\<close> standing for \<open>undefined\<close>.
\<close>

datatype MoveType = Move | Draw

record PlotterMove =
  mv_type :: MoveType
  mv_x :: real
  mv_y :: real
  mv_z :: "real option"

record BoundingBox =
  bb_minX :: real
  bb_maxX :: real
  bb_minY :: real
  bb_maxY :: real

record PlotterSequence =
  seq_name :: string
  seq_moves :: "PlotterMove list"
  seq_boundingBox :: BoundingBox

record Zone =
  zone_x1 :: real
  zone_y1 :: real
  zone_x2 :: real
  zone_y2 :: real

record MovementBounds =
  minX :: real
  maxX :: real
  minY :: real
  maxY :: real
  paperWidth :: real
  paperHeight :: real
  safeZones :: "Zone list option"
  dangerZones :: "Zone list option"

record SimpleCalibration =
  cal_x :: real
  cal_y :: real

definition A5_width :: real where "A5_width = 148"
definition A5_height :: real where "A5_height = 210"

definition MOVEMENT_BOUNDS :: MovementBounds where
  "MOVEMENT_BOUNDS = \<lparr> minX = 0, maxX = A5_width, minY = 0, maxY = A5_height,
      paperWidth = A5_width, paperHeight = A5_height, safeZones = None,
      dangerZones = Some [\<lparr> zone_x1 = -10, zone_y1 = -10, zone_x2 = 10, zone_y2 = 10 \<rparr>] \<rparr>"

definition COMMAND_TIMEOUT :: nat where "COMMAND_TIMEOUT = 5000"

definition DEFAULT_CALIBRATION :: SimpleCalibration where
  "DEFAULT_CALIBRATION = \<lparr> cal_x = 10, cal_y = 10 \<rparr>"

section \<open>Movement Validator (lib/MovementValidator.ts)\<close>

text \<open>
  The reason of a rejected validation. The fixed messages keep the source's text; the
  messages built from a template keep the interpolated numbers as arguments.
\<close>

datatype Reason =
    Fixed string
  | X_outside_bounds real real real
  | Y_outside_bounds real real real
  | Invalid_move_at real real "Reason option"

record ValidationResult =
  valid :: bool
  reason :: "Reason option"

record MovementValidator =
  bounds :: MovementBounds
  calibration :: SimpleCalibration
  simulationMode :: bool

definition result_valid :: ValidationResult where
  "result_valid = \<lparr> valid = True, reason = None \<rparr>"

definition result_invalid :: "Reason \<Rightarrow> ValidationResult" where
  "result_invalid r = \<lparr> valid = False, reason = Some r \<rparr>"

definition isInZone :: "real \<Rightarrow> real \<Rightarrow> Zone \<Rightarrow> bool" where
  "isInZone x y zone \<longleftrightarrow>
     x \<ge> zone_x1 zone \<and> x \<le> zone_x2 zone \<and> y \<ge> zone_y1 zone \<and> y \<le> zone_y2 zone"

definition doLinesIntersect ::
  "real \<Rightarrow> real \<Rightarrow> real \<Rightarrow> real \<Rightarrow> real \<Rightarrow> real \<Rightarrow> real \<Rightarrow> real \<Rightarrow> bool" where
  "doLinesIntersect x1 y1 x2 y2 x3 y3 x4 y4 =
     (let denominator = (x2 - x1) * (y4 - y3) - (y2 - y1) * (x4 - x3) in
      if denominator = 0 then False
      else
        let ua = ((x4 - x3) * (y1 - y3) - (y4 - y3) * (x1 - x3)) / denominator;
            ub = ((x2 - x1) * (y1 - y3) - (y2 - y1) * (x1 - x3)) / denominator
        in ua \<ge> 0 \<and> ua \<le> 1 \<and> ub \<ge> 0 \<and> ub \<le> 1)"

definition doesLineIntersectZone :: "real \<Rightarrow> real \<Rightarrow> real \<Rightarrow> real \<Rightarrow> Zone \<Rightarrow> bool" where
  "doesLineIntersectZone x1 y1 x2 y2 zone =
     (let lines =
        [ (zone_x1 zone, zone_y1 zone, zone_x2 zone, zone_y1 zone),
          (zone_x2 zone, zone_y1 zone, zone_x2 zone, zone_y2 zone),
          (zone_x1 zone, zone_y2 zone, zone_x2 zone, zone_y2 zone),
          (zone_x1 zone, zone_y1 zone, zone_x1 zone, zone_y2 zone) ]
      in list_ex (\<lambda>(lx1, ly1, lx2, ly2). doLinesIntersect x1 y1 x2 y2 lx1 ly1 lx2 ly2) lines)"

text \<open>An absent \<open>dangerZones\<close> field skips the zone checks, as the \<open>if\<close> of the source does.\<close>

definition zones_of :: "MovementBounds \<Rightarrow> Zone list" where
  "zones_of b = (case dangerZones b of None \<Rightarrow> [] | Some zs \<Rightarrow> zs)"

definition validatePosition :: "MovementValidator \<Rightarrow> real \<Rightarrow> real \<Rightarrow> ValidationResult" where
  "validatePosition v x y =
     (let b = bounds v in
      if simulationMode v then result_valid
      else if x < minX b \<or> x > maxX b then result_invalid (X_outside_bounds x (minX b) (maxX b))
      else if y < minY b \<or> y > maxY b then result_invalid (Y_outside_bounds y (minY b) (maxY b))
      else if x < 0 \<or> x > paperWidth b \<or> y < 0 \<or> y > paperHeight b
        then result_invalid (Fixed ''Position outside paper bounds'')
      else if list_ex (isInZone x y) (zones_of b)
        then result_invalid (Fixed ''Position is in danger zone'')
      else result_valid)"

definition MAX_DEGREES_PER_MOVE :: real where "MAX_DEGREES_PER_MOVE = 360"

definition validatePath ::
  "MovementValidator \<Rightarrow> real \<Rightarrow> real \<Rightarrow> real \<Rightarrow> real \<Rightarrow> ValidationResult" where
  "validatePath v startX startY endX endY =
     (let b = bounds v in
      if simulationMode v then result_valid
      else
        let startValid = validatePosition v startX startY in
        if \<not> valid startValid then startValid
        else
          let endValid = validatePosition v endX endY in
          if \<not> valid endValid then endValid
          else
            let dx = endX - startX;
                dy = endY - startY;
                pathLength = sqrt (dx * dx + dy * dy)
            in
            if pathLength > max (paperWidth b) (paperHeight b)
              then result_invalid (Fixed ''Path length exceeds maximum allowed distance'')
            else if list_ex (doesLineIntersectZone startX startY endX endY) (zones_of b)
              then result_invalid (Fixed ''Path crosses danger zone'')
            else
              let degreesX = dx * cal_x (calibration v);
                  degreesY = dy * cal_y (calibration v)
              in
              if \<bar>degreesX\<bar> > MAX_DEGREES_PER_MOVE \<or> \<bar>degreesY\<bar> > MAX_DEGREES_PER_MOVE
                then result_invalid (Fixed ''Movement requires excessive motor rotation'')
              else result_valid)"

text \<open>The loop of \<open>validateSequence\<close> over the moves, from the current position.\<close>

fun validateMoves :: "MovementValidator \<Rightarrow> real \<Rightarrow> real \<Rightarrow> PlotterMove list \<Rightarrow> ValidationResult" where
  "validateMoves v currentX currentY [] = result_valid"
| "validateMoves v currentX currentY (m # ms) =
     (let pathValid = validatePath v currentX currentY (mv_x m) (mv_y m) in
      if \<not> valid pathValid
        then result_invalid (Invalid_move_at (mv_x m) (mv_y m) (reason pathValid))
      else validateMoves v (mv_x m) (mv_y m) ms)"

definition validateSequence :: "MovementValidator \<Rightarrow> PlotterSequence \<Rightarrow> ValidationResult" where
  "validateSequence v sq =
     (let b = bounds v; box = seq_boundingBox sq in
      if simulationMode v then result_valid
      else if bb_maxX box > paperWidth b \<or> bb_maxY box > paperHeight b
              \<or> bb_minX box < 0 \<or> bb_minY box < 0
        then result_invalid (Fixed ''Sequence exceeds paper bounds'')
      else validateMoves v 0 0 (seq_moves sq))"

text \<open>The validator of the scenario: the default bounds, any calibration, no simulation.\<close>

definition scenario_validator :: "SimpleCalibration \<Rightarrow> MovementValidator" where
  "scenario_validator c = \<lparr> bounds = MOVEMENT_BOUNDS, calibration = c, simulationMode = False \<rparr>"

section \<open>Path Planner (lib/PathPlanner.ts)\<close>

text \<open>
  A command of the external path parser, as \<open>types/svg-path-parser.d.ts\<close> declares it:
  a code and optional coordinates. The parser itself is a library outside the
  repository, so the list of parsed commands is the input of the model.
\<close>

record SVGCommand =
  cmd_code :: string
  cmd_x :: "real option"
  cmd_y :: "real option"
  cmd_x0 :: "real option"
  cmd_y0 :: "real option"
  cmd_x1 :: "real option"
  cmd_y1 :: "real option"
  cmd_x2 :: "real option"
  cmd_y2 :: "real option"

text \<open>JavaScript's \<open>!v\<close> on an optional number: true for \<open>undefined\<close> and for 0.\<close>

definition falsy :: "real option \<Rightarrow> bool" where
  "falsy v = (case v of None \<Rightarrow> True | Some r \<Rightarrow> r = 0)"

definition approximateBezier ::
  "real \<Rightarrow> real \<Rightarrow> real \<Rightarrow> real \<Rightarrow> real \<Rightarrow> real \<Rightarrow> real \<Rightarrow> real \<Rightarrow> nat \<Rightarrow> (real \<times> real) list" where
  "approximateBezier x0 y0 x1 y1 x2 y2 x3 y3 segments =
     map (\<lambda>i. let t = real i / real segments; mt = 1 - t in
            (mt * mt * mt * x0 + 3 * mt * mt * t * x1 + 3 * mt * t * t * x2 + t * t * t * x3,
             mt * mt * mt * y0 + 3 * mt * mt * t * y1 + 3 * mt * t * t * y2 + t * t * t * y3))
         [0 ..< Suc segments]"

definition mk_move :: "MoveType \<Rightarrow> real \<Rightarrow> real \<Rightarrow> real option \<Rightarrow> PlotterMove" where
  "mk_move t x y z = \<lparr> mv_type = t, mv_x = x, mv_y = y, mv_z = z \<rparr>"

text \<open>The state of the loop of \<open>parseSVGPath\<close>: the moves pushed so far and \<open>penDown\<close>.\<close>

type_synonym parse_state = "PlotterMove list \<times> bool"

text \<open>The body of the inner loop of the \<open>'C'\<close> case, for one sampled point.\<close>

definition pushPoint :: "real \<Rightarrow> parse_state \<Rightarrow> real \<times> real \<Rightarrow> parse_state" where
  "pushPoint scale st pt =
     (case st of (moves, penDown) \<Rightarrow>
        let px = fst pt * scale; py = snd pt * scale;
            moves1 = (if \<not> penDown then moves @ [mk_move Move px py (Some (-45))] else moves)
        in (moves1 @ [mk_move Draw px py None], True))"

text \<open>
  One iteration of the \<open>for (const cmd of commands)\<close> loop. The guard
  \<open>if (!cmd.x || !cmd.y) continue\<close> comes first; \<open>continue\<close> leaves the state as it is.
\<close>

definition processCommand :: "real \<Rightarrow> parse_state \<Rightarrow> SVGCommand \<Rightarrow> parse_state" where
  "processCommand scale st cmd =
     (case st of (moves, penDown) \<Rightarrow>
      if falsy (cmd_x cmd) \<or> falsy (cmd_y cmd) then (moves, penDown)
      else
        (case (cmd_x cmd, cmd_y cmd) of
           (Some cx, Some cy) \<Rightarrow>
             if cmd_code cmd = ''M'' then
               (moves @ [mk_move Move (cx * scale) (cy * scale) (Some 0)], False)
             else if cmd_code cmd = ''L'' then
               (let moves1 = (if \<not> penDown
                              then moves @ [mk_move Move (cx * scale) (cy * scale) (Some (-45))]
                              else moves)
                in (moves1 @ [mk_move Draw (cx * scale) (cy * scale) None], True))
             else if cmd_code cmd = ''C'' then
               (case (cmd_x0 cmd, cmd_y0 cmd, cmd_x1 cmd, cmd_y1 cmd, cmd_x2 cmd, cmd_y2 cmd) of
                  (Some x0, Some y0, Some x1, Some y1, Some x2, Some y2) \<Rightarrow>
                    foldl (pushPoint scale) (moves, penDown)
                      (approximateBezier x0 y0 x1 y1 x2 y2 cx cy 10)
                | _ \<Rightarrow> (moves, penDown))
             else if cmd_code cmd = ''Z'' then
               (case moves of
                  [] \<Rightarrow> (moves, penDown)
                | first # _ \<Rightarrow> (moves @ [mk_move Draw (mv_x first) (mv_y first) None], penDown))
             else (moves, penDown)
         | _ \<Rightarrow> (moves, penDown)))"

definition parseLoop :: "real \<Rightarrow> parse_state \<Rightarrow> SVGCommand list \<Rightarrow> parse_state" where
  "parseLoop scale st commands = foldl (processCommand scale) st commands"

text \<open>
  The moves of \<open>parseSVGPath\<close> before \<open>validateAndScalePath\<close> rescales them: the loop from
  the empty list with the pen up, then the copy of the last move with \<open>z: 0\<close>.
\<close>

definition parsedMoves :: "SVGCommand list \<Rightarrow> real \<Rightarrow> PlotterMove list" where
  "parsedMoves commands scale =
     (let moves = fst (parseLoop scale ([], False) commands) in
      case rev moves of
        [] \<Rightarrow> moves
      | lst # _ \<Rightarrow> moves @ [lst \<lparr> mv_z := Some 0 \<rparr>])"

definition svg_cmd :: "string \<Rightarrow> real option \<Rightarrow> real option \<Rightarrow> SVGCommand" where
  "svg_cmd c x y = \<lparr> cmd_code = c, cmd_x = x, cmd_y = y, cmd_x0 = None, cmd_y0 = None,
      cmd_x1 = None, cmd_y1 = None, cmd_x2 = None, cmd_y2 = None \<rparr>"

section \<open>Path Processor (lib/pathUtils.ts)\<close>

text \<open>
  What the modelled functions throw: a \<open>TypeError\<close>, the \<open>Error\<close> of a rejected
  validation with its reason, and the rejection of the \<open>n\<close>-th call made to the plotter.
\<close>

datatype js_error = TypeError string | Invalid_sequence "Reason option" | Plotter_failure nat

text \<open>
  The callback of the \<open>reduce\<close> in \<open>optimizePlotterMoves\<close>, at index \<open>i\<close>. Reading
  \<open>prev.type\<close> with an empty accumulator would throw a \<open>TypeError\<close>; the branch is
  written out and shown unreachable below. The input moves are taken to be distinct
  objects (as every producer in the repository builds them), so the assignment to
  \<open>prev.x\<close> and \<open>prev.y\<close> is the update of the accumulator's last element.
\<close>

definition optimizeStep :: "PlotterMove list \<Rightarrow> PlotterMove \<Rightarrow> nat \<Rightarrow> js_error + PlotterMove list" where
  "optimizeStep acc move i =
     (if i = 0 then Inr [move]
      else if acc = [] then Inl (TypeError ''Cannot read properties of undefined'')
      else
        let prev = last acc in
        if mv_type prev = mv_type move \<and> mv_type move = Draw
          then Inr (butlast acc @ [prev \<lparr> mv_x := mv_x move, mv_y := mv_y move \<rparr>])
        else Inr (acc @ [move]))"

fun reduceMoves :: "PlotterMove list \<Rightarrow> nat \<Rightarrow> PlotterMove list \<Rightarrow> js_error + PlotterMove list" where
  "reduceMoves acc i [] = Inr acc"
| "reduceMoves acc i (move # rest) =
     (case optimizeStep acc move i of
        Inl e \<Rightarrow> Inl e
      | Inr acc' \<Rightarrow> reduceMoves acc' (Suc i) rest)"

definition optimizePlotterMoves :: "PlotterMove list \<Rightarrow> bool \<Rightarrow> js_error + PlotterMove list" where
  "optimizePlotterMoves moves simMode = (if simMode then Inr moves else reduceMoves [] 0 moves)"

text \<open>
  The same function on a store, as the source runs it: the array holds references to
  move objects, and the merge assigns to the fields of the object that \<open>prev\<close> refers to,
  which is an object of the input array. The optimizer above is what this computes on
  an array of distinct objects (\<open>optimizePlotterMovesRef_refines\<close> below).
\<close>

type_synonym ref = nat
type_synonym store = "ref \<Rightarrow> PlotterMove"

definition optimizeStepRef ::
  "store \<Rightarrow> ref list \<Rightarrow> ref \<Rightarrow> nat \<Rightarrow> js_error + store \<times> ref list" where
  "optimizeStepRef h acc move i =
     (if i = 0 then Inr (h, [move])
      else if acc = [] then Inl (TypeError ''Cannot read properties of undefined'')
      else
        let prev = last acc in
        if mv_type (h prev) = mv_type (h move) \<and> mv_type (h move) = Draw
          then Inr (h (prev := (h prev) \<lparr> mv_x := mv_x (h move), mv_y := mv_y (h move) \<rparr>), acc)
        else Inr (h, acc @ [move]))"

fun reduceRefs :: "store \<Rightarrow> ref list \<Rightarrow> nat \<Rightarrow> ref list \<Rightarrow> js_error + store \<times> ref list" where
  "reduceRefs h acc i [] = Inr (h, acc)"
| "reduceRefs h acc i (move # rest) =
     (case optimizeStepRef h acc move i of
        Inl e \<Rightarrow> Inl e
      | Inr (h', acc') \<Rightarrow> reduceRefs h' acc' (Suc i) rest)"

definition optimizePlotterMovesRef ::
  "store \<Rightarrow> ref list \<Rightarrow> bool \<Rightarrow> js_error + store \<times> ref list" where
  "optimizePlotterMovesRef h moves simMode =
     (if simMode then Inr (h, moves) else reduceRefs h [] 0 moves)"



text \<open>The reduce callback on a non-empty accumulator, where it cannot throw.\<close>

definition mergeMove :: "PlotterMove list \<Rightarrow> PlotterMove \<Rightarrow> PlotterMove list" where
  "mergeMove acc move =
     (if mv_type (last acc) = mv_type move \<and> mv_type move = Draw
        then butlast acc @ [(last acc) \<lparr> mv_x := mv_x move, mv_y := mv_y move \<rparr>]
      else acc @ [move])"




section \<open>Command Queue (lib/CommandQueue.ts)\<close>

text \<open>
  The queue runs on a cooperative event loop, so its model is a transition system: each
  event is one uninterrupted run of code between suspension points. A command is
  identified by its submission index (the closure pushed by the \<open>n\<close>-th call of \<open>add\<close>;
  the \<open>id\<close> field of the source is never read). A command is submitted either directly
  through \<open>add\<close>, or through \<open>executeCommand\<close> of components/ManualControl.tsx, which wraps
  the operation in a promise that a timer rejects after \<open>COMMAND_TIMEOUT\<close> milliseconds.
\<close>

datatype Outcome = Resolved | Rejected

datatype Origin = Direct | ViaExecuteCommand

type_synonym Command = "nat \<times> Origin"

record QueueState =
  queue :: "Command list"
  executing :: bool
  currentCommand :: "Command option"
  submitted :: nat
  started :: "(nat \<times> nat) list"
  inflight :: "Command list"
  handles :: "(nat \<times> Outcome) list"
  resumable :: "nat list"
  timers :: "(nat \<times> nat) list"
  now :: nat

text \<open>
  \<open>queue\<close>, \<open>executing\<close> and \<open>currentCommand\<close> are the fields of the class. The others
  record what the environment sees: \<open>submitted\<close> counts the calls of \<open>add\<close>; \<open>started\<close>
  lists each command whose \<open>execute\<close> body has begun, with the time it began; \<open>inflight\<close>
  holds the commands whose \<open>execute\<close> body has begun and not settled; \<open>handles\<close> lists
  the promises returned by \<open>add\<close> that have settled, in order, with their outcome;
  \<open>resumable\<close> holds the invocations of \<open>processQueue\<close> whose awaited \<open>execute\<close> has
  settled and whose continuation has not run yet; \<open>timers\<close> holds the armed timeout
  timers of \<open>executeCommand\<close> as (command, due time); \<open>now\<close> is the clock in ms.
\<close>

definition initialQueue :: QueueState where
  "initialQueue = \<lparr> queue = [], executing = False, currentCommand = None, submitted = 0,
      started = [], inflight = [], handles = [], resumable = [], timers = [], now = 0 \<rparr>"

text \<open>
  \<open>processQueue\<close> up to its \<open>await\<close>: the guard, then the head of the queue is shifted
  and its \<open>execute\<close> body is called, which calls the operation at once. An operation
  wrapped by \<open>executeCommand\<close> arms its timer as it starts.
\<close>

definition processQueue :: "QueueState \<Rightarrow> QueueState" where
  "processQueue s =
     (if executing s then s
      else case queue s of
        [] \<Rightarrow> s
      | c # rest \<Rightarrow>
          s \<lparr> executing := True, currentCommand := Some c, queue := rest,
              started := started s @ [(fst c, now s)],
              inflight := inflight s @ [c],
              timers := (if snd c = ViaExecuteCommand
                         then timers s @ [(fst c, now s + COMMAND_TIMEOUT)] else timers s) \<rparr>)"

definition add :: "Origin \<Rightarrow> QueueState \<Rightarrow> QueueState" where
  "add origin s =
     processQueue (s \<lparr> queue := queue s @ [(submitted s, origin)], submitted := Suc (submitted s) \<rparr>)"

definition clear :: "QueueState \<Rightarrow> QueueState" where
  "clear s = s \<lparr> queue := [], executing := False, currentCommand := None \<rparr>"

definition isExecuting :: "QueueState \<Rightarrow> bool" where
  "isExecuting s = executing s"

definition pendingCommands :: "QueueState \<Rightarrow> nat" where
  "pendingCommands s = length (queue s)"

text \<open>
  The \<open>execute\<close> body of command \<open>c\<close> settles with outcome \<open>oc\<close>: the handle returned by
  \<open>add\<close> is resolved or rejected, a timer of \<open>executeCommand\<close> is cleared, and the
  continuation of the awaiting \<open>processQueue\<close> becomes ready.
\<close>

definition settle :: "nat \<Rightarrow> Outcome \<Rightarrow> QueueState \<Rightarrow> QueueState" where
  "settle c oc s =
     s \<lparr> inflight := filter (\<lambda>k. fst k \<noteq> c) (inflight s),
         handles := handles s @ [(c, oc)],
         timers := filter (\<lambda>t. fst t \<noteq> c) (timers s),
         resumable := resumable s @ [c] \<rparr>"

text \<open>
  The code of \<open>processQueue\<close> after its \<open>await\<close>: the flag and the current command are
  reset and \<open>processQueue\<close> is called again.
\<close>

definition resume :: "nat \<Rightarrow> QueueState \<Rightarrow> QueueState" where
  "resume c s =
     processQueue (s \<lparr> resumable := filter (\<lambda>k. k \<noteq> c) (resumable s),
                       executing := False, currentCommand := None \<rparr>)"

datatype Event =
    Add Origin
  | ProcessQueue
  | Settle nat Outcome
  | Timeout nat
  | Resume nat
  | Clear
  | Advance nat

text \<open>
  One event, \<open>None\<close> when it cannot happen in the state: \<open>add\<close>, \<open>processQueue\<close> and
  \<open>clear\<close> are public and can be called at any time; an operation settles only while
  in flight; a timer fires only when armed and due (a timer may fire late, never early);
  a continuation runs only when ready. The operation behind a timed-out command is not
  aborted; when it completes later, \<open>clearTimeout\<close> and \<open>resolve\<close> change nothing, so
  that completion is not an event.
\<close>

fun step :: "QueueState \<Rightarrow> Event \<Rightarrow> QueueState option" where
  "step s (Add origin) = Some (add origin s)"
| "step s ProcessQueue = Some (processQueue s)"
| "step s (Settle c oc) =
     (if c \<in> fst ` set (inflight s) then Some (settle c oc s) else None)"
| "step s (Timeout c) =
     (if list_ex (\<lambda>t. fst t = c \<and> snd t \<le> now s) (timers s)
      then Some (if c \<in> fst ` set (inflight s) then settle c Rejected s
                 else s \<lparr> timers := filter (\<lambda>t. fst t \<noteq> c) (timers s) \<rparr>)
      else None)"
| "step s (Resume c) = (if c \<in> set (resumable s) then Some (resume c s) else None)"
| "step s Clear = Some (clear s)"
| "step s (Advance d) = Some (s \<lparr> now := now s + d \<rparr>)"

fun run :: "QueueState \<Rightarrow> Event list \<Rightarrow> QueueState option" where
  "run s [] = Some s"
| "run s (e # es) = (case step s e of None \<Rightarrow> None | Some s' \<Rightarrow> run s' es)"

text \<open>The invariant of the runs in which \<open>clear\<close> is never called.\<close>

definition fifo_inv :: "QueueState \<Rightarrow> bool" where
  "fifo_inv s \<longleftrightarrow>
     map fst (handles s) @ map fst (inflight s) @ map fst (queue s) = [0 ..< submitted s]
     \<and> map fst (started s) = map fst (handles s) @ map fst (inflight s)
     \<and> length (inflight s) + length (resumable s) \<le> 1
     \<and> (executing s \<longleftrightarrow> inflight s \<noteq> [] \<or> resumable s \<noteq> [])
     \<and> (queue s \<noteq> [] \<longrightarrow> executing s)"

text \<open>The invariant of all runs: a wrapped command in flight has its timer armed.\<close>

definition timer_inv :: "QueueState \<Rightarrow> bool" where
  "timer_inv s \<longleftrightarrow>
     (\<forall>c. (c, ViaExecuteCommand) \<in> set (inflight s) \<longrightarrow>
        (\<exists>t. (c, t) \<in> set (started s) \<and> t \<le> now s \<and> (c, t + COMMAND_TIMEOUT) \<in> set (timers s)))"

section \<open>Safety Controller (lib/SafetyController.ts)\<close>

text \<open>
  The ports are the strings \<open>'A'\<close>, \<open>'B'\<close> and \<open>'C'\<close>: the private methods modelled here are
  only called with these, from the iterations over \<open>['A', 'B', 'C']\<close>.
\<close>

datatype Port = A | B | C

record SafetyLimits =
  maxSpeed :: real
  maxAcceleration :: real
  minDegrees :: real
  maxDegrees :: real
  maxCurrent :: real
  maxTemperature :: real
  maxMotorLoad :: real

record MotorStatus =
  currentPosition :: real
  speed :: real
  current :: real
  temperature :: real
  load :: real

datatype NotificationType = N_error | N_success | N_info

text \<open>The messages passed to \<open>notifyViolation\<close>, with the values their templates insert.\<close>

datatype Message =
    Safety_violation Port string real
  | Failed_to_stop_motor Port
  | Emergency_stop_activated
  | Emergency_stop_failed

record SafetyController =
  limits :: "Port \<Rightarrow> SafetyLimits"
  hub :: "(Port \<Rightarrow> bool) option"
  stopRequested :: bool
  monitoring :: bool
  notifications :: "(Message \<times> NotificationType) list"
  violations :: "(Port \<times> string \<times> real) list"
  brakeCalls :: "Port list"
  emergencyStops :: nat
  stopsAwaited :: nat
  cooldowns :: "nat list"
  clock :: nat

text \<open>
  \<open>limits\<close> and \<open>stopRequested\<close> are the fields of the class; \<open>hub\<close> is \<open>None\<close> for a missing
  hub and otherwise tells at which ports \<open>getDeviceAtPort\<close> finds a motor; \<open>monitoring\<close>
  says that \<open>monitoringInterval\<close> is set. The others record what the environment sees:
  the calls of \<open>notifyViolation\<close>, of \<open>handleViolation\<close>, of \<open>motor.brake()\<close> and of
  \<open>emergencyStop\<close>; the invocations of \<open>handleViolation\<close> suspended at
  \<open>await this.emergencyStop()\<close>; the due times of the armed \<open>setTimeout\<close> callbacks that
  reset \<open>stopRequested\<close>; and the clock in ms.
\<close>

definition defaultLimits :: "Port \<Rightarrow> SafetyLimits" where
  "defaultLimits p =
     (case p of
        A \<Rightarrow> \<lparr> maxSpeed = 100, maxAcceleration = 500, minDegrees = -360, maxDegrees = 360,
               maxCurrent = 1000, maxTemperature = 50, maxMotorLoad = 90 \<rparr>
      | B \<Rightarrow> \<lparr> maxSpeed = 100, maxAcceleration = 500, minDegrees = -180, maxDegrees = 180,
               maxCurrent = 1000, maxTemperature = 50, maxMotorLoad = 90 \<rparr>
      | C \<Rightarrow> \<lparr> maxSpeed = 50, maxAcceleration = 200, minDegrees = -45, maxDegrees = 45,
               maxCurrent = 500, maxTemperature = 50, maxMotorLoad = 90 \<rparr>)"

text \<open>The constructor, for a given hub.\<close>

definition newSafetyController :: "(Port \<Rightarrow> bool) option \<Rightarrow> SafetyController" where
  "newSafetyController h = \<lparr> limits = defaultLimits, hub = h, stopRequested = False,
      monitoring = False, notifications = [], violations = [], brakeCalls = [],
      emergencyStops = 0, stopsAwaited = 0, cooldowns = [], clock = 0 \<rparr>"

definition notifyViolation :: "Message \<Rightarrow> NotificationType \<Rightarrow> SafetyController \<Rightarrow> SafetyController" where
  "notifyViolation m t s = s \<lparr> notifications := notifications s @ [(m, t)] \<rparr>"

definition stopMonitoring :: "SafetyController \<Rightarrow> SafetyController" where
  "stopMonitoring s = s \<lparr> monitoring := False \<rparr>"

definition connectedPorts :: "SafetyController \<Rightarrow> Port list" where
  "connectedPorts s = (case hub s of None \<Rightarrow> [] | Some dev \<Rightarrow> filter dev [A, B, C])"

text \<open>
  \<open>emergencyStop\<close> up to its \<open>await\<close>: monitoring stops and every callback of the \<open>map\<close>
  runs to its own \<open>await\<close>, so \<open>brake()\<close> has been called on each port that has a motor.
\<close>

definition emergencyStop_begin :: "SafetyController \<Rightarrow> SafetyController" where
  "emergencyStop_begin s =
     (let s1 = stopMonitoring s in
      s1 \<lparr> emergencyStops := Suc (emergencyStops s1),
           brakeCalls := brakeCalls s1 @ connectedPorts s1 \<rparr>)"

text \<open>
  \<open>emergencyStop\<close> after the brakes have settled; \<open>ok p\<close> tells whether the brake on port
  \<open>p\<close> succeeded. A failed brake is caught and reported by its own callback. Without a
  hub the callbacks throw, \<open>Promise.all\<close> rejects and the outer \<open>catch\<close> reports it.
  (Failures are listed in port order; their real order is that of the settlements.)
\<close>

definition emergencyStop_finish :: "(Port \<Rightarrow> bool) \<Rightarrow> SafetyController \<Rightarrow> SafetyController" where
  "emergencyStop_finish ok s =
     (case hub s of
        None \<Rightarrow> notifyViolation Emergency_stop_failed N_error s
      | Some dev \<Rightarrow>
          notifyViolation Emergency_stop_activated N_info
            (foldl (\<lambda>s' p. notifyViolation (Failed_to_stop_motor p) N_error s') s
               (filter (\<lambda>p. \<not> ok p) (connectedPorts s))))"

definition emergencyStop :: "(Port \<Rightarrow> bool) \<Rightarrow> SafetyController \<Rightarrow> SafetyController" where
  "emergencyStop ok s = emergencyStop_finish ok (emergencyStop_begin s)"

text \<open>\<open>handleViolation\<close> up to its \<open>await\<close>.\<close>

definition handleViolation :: "Port \<Rightarrow> string \<Rightarrow> real \<Rightarrow> SafetyController \<Rightarrow> SafetyController" where
  "handleViolation port why v s =
     (let s1 = notifyViolation (Safety_violation port why v) N_error
                 (s \<lparr> violations := violations s @ [(port, why, v)] \<rparr>)
      in if \<not> stopRequested s1
         then emergencyStop_begin (s1 \<lparr> stopRequested := True, stopsAwaited := Suc (stopsAwaited s1) \<rparr>)
         else s1)"

text \<open>
  \<open>handleViolation\<close> after its \<open>await\<close>: the emergency stop has finished and the timer
  that resets \<open>stopRequested\<close> is armed for 1,000 ms later.
\<close>

definition handleViolation_resume :: "(Port \<Rightarrow> bool) \<Rightarrow> SafetyController \<Rightarrow> SafetyController" where
  "handleViolation_resume ok s =
     (let s1 = emergencyStop_finish ok s in
      s1 \<lparr> stopsAwaited := stopsAwaited s1 - 1, cooldowns := cooldowns s1 @ [clock s1 + 1000] \<rparr>)"

definition checkLimits :: "Port \<Rightarrow> MotorStatus \<Rightarrow> SafetyController \<Rightarrow> SafetyController" where
  "checkLimits port status s =
     (let lim = limits s port;
          s1 = (if currentPosition status < minDegrees lim
                then handleViolation port ''Position below minimum limit'' (currentPosition status) s
                else s);
          s2 = (if currentPosition status > maxDegrees lim
                then handleViolation port ''Position above maximum limit'' (currentPosition status) s1
                else s1);
          s3 = (if \<bar>speed status\<bar> > maxSpeed lim
                then handleViolation port ''Speed exceeds maximum limit'' (speed status) s2
                else s2);
          s4 = (if current status > maxCurrent lim
                then handleViolation port ''Current draw too high'' (current status) s3
                else s3);
          s5 = (if temperature status > maxTemperature lim
                then handleViolation port ''Temperature too high'' (temperature status) s4
                else s4)
      in if load status > maxMotorLoad lim
         then handleViolation port ''Motor load too high'' (load status) s5
         else s5)"

text \<open>
  The events of the controller: a tick of the monitor checks the status read from a
  port; the brakes of a pending emergency stop settle; a due reset timer fires; time
  passes.
\<close>

datatype SafetyEvent =
    CheckLimits Port MotorStatus
  | StopSettled "Port \<Rightarrow> bool"
  | CooldownElapsed
  | Elapse nat

fun safety_step :: "SafetyController \<Rightarrow> SafetyEvent \<Rightarrow> SafetyController option" where
  "safety_step s (CheckLimits port status) = Some (checkLimits port status s)"
| "safety_step s (StopSettled ok) =
     (if 0 < stopsAwaited s then Some (handleViolation_resume ok s) else None)"
| "safety_step s CooldownElapsed =
     (case filter (\<lambda>d. d \<le> clock s) (cooldowns s) of
        [] \<Rightarrow> None
      | d # _ \<Rightarrow> Some (s \<lparr> stopRequested := False, cooldowns := remove1 d (cooldowns s) \<rparr>))"
| "safety_step s (Elapse d) = Some (s \<lparr> clock := clock s + d \<rparr>)"

fun safety_run :: "SafetyController \<Rightarrow> SafetyEvent list \<Rightarrow> SafetyController option" where
  "safety_run s [] = Some s"
| "safety_run s (e # es) = (case safety_step s e of None \<Rightarrow> None | Some s' \<Rightarrow> safety_run s' es)"

text \<open>
  The cool-down after a violation handled at time \<open>t0\<close> that brought the number of
  emergency stops to \<open>n\<close>: until \<open>t0\<close> + 1,000 the flag stays set, its reset timer is
  either not armed yet or due no earlier than \<open>t0\<close> + 1,000, and the number stays \<open>n\<close>.
\<close>

definition cooling :: "nat \<Rightarrow> nat \<Rightarrow> SafetyController \<Rightarrow> bool" where
  "cooling t0 n s \<longleftrightarrow>
     t0 \<le> clock s
     \<and> (clock s < t0 + 1000 \<longrightarrow>
          stopRequested s \<and> emergencyStops s = n
          \<and> (\<forall>d \<in> set (cooldowns s). t0 + 1000 \<le> d))"

text \<open>
  The controller and the queue of the application side by side. \<open>SafetyController\<close> is
  constructed from the hub and the notification callback only, so its methods act on
  the controller component.
\<close>

record System =
  sys_queue :: QueueState
  sys_safety :: SafetyController

definition systemEmergencyStop :: "(Port \<Rightarrow> bool) \<Rightarrow> System \<Rightarrow> System" where
  "systemEmergencyStop ok sys = sys \<lparr> sys_safety := emergencyStop ok (sys_safety sys) \<rparr>"

section \<open>Path Executor (lib/pathUtils.ts)\<close>

text \<open>
  A call \<open>plotter.rotateByDegrees(port, degrees, speed)\<close>. The speed is \<open>None\<close> when the
  source computes a value that is not a finite number.
\<close>

datatype HwCall = RotateByDegrees Port real "real option"

record PathExecutor =
  ex_validator :: MovementValidator
  ex_calibration :: SimpleCalibration
  ex_simulationMode :: bool
  moveSpeed :: real
  drawSpeed :: real
  currentX :: real
  currentY :: real
  hw_calls :: "HwCall list"

text \<open>
  \<open>hw_calls\<close> records the calls made to the plotter, in order. The plotter is the
  environment: \<open>hw n\<close> tells whether the call number \<open>n\<close> (from 0) resolves; a call that
  rejects (the motor is missing, or the hub reports a fault) throws at its \<open>await\<close>.
\<close>

definition rotateByDegrees ::
  "(nat \<Rightarrow> bool) \<Rightarrow> Port \<Rightarrow> real \<Rightarrow> real option \<Rightarrow> PathExecutor \<Rightarrow> bool \<times> PathExecutor" where
  "rotateByDegrees hw port degrees spd ex =
     (hw (length (hw_calls ex)),
      ex \<lparr> hw_calls := hw_calls ex @ [RotateByDegrees port degrees spd] \<rparr>)"

text \<open>
  \<open>Math.abs(degrees / time)\<close> with \<open>time = distance / baseSpeed\<close>. With a base speed of 0
  and a positive distance the time is \<open>Infinity\<close> and the speed 0; with a distance of 0
  the quotient is not a finite number.
\<close>

definition axisSpeed :: "real \<Rightarrow> real \<Rightarrow> real \<Rightarrow> real option" where
  "axisSpeed degrees distance baseSpeed =
     (if distance = 0 then None
      else if baseSpeed = 0 then Some 0
      else Some \<bar>degrees / (distance / baseSpeed)\<bar>)"

definition executeMove ::
  "(nat \<Rightarrow> bool) \<Rightarrow> PlotterMove \<Rightarrow> PathExecutor \<Rightarrow> (js_error + unit) \<times> PathExecutor" where
  "executeMove hw move ex =
     (let (penOk, ex1) = (case mv_z move of
                            None \<Rightarrow> (True, ex)
                          | Some z \<Rightarrow> rotateByDegrees hw C z (Some 30) ex)
      in
      if \<not> penOk then (Inl (Plotter_failure (length (hw_calls ex))), ex1)
      else
        let deltaX = mv_x move - currentX ex1;
            deltaY = mv_y move - currentY ex1;
            degreesX = deltaX * cal_x (ex_calibration ex1);
            degreesY = deltaY * cal_y (ex_calibration ex1);
            distance = sqrt (deltaX * deltaX + deltaY * deltaY);
            baseSpeed = (if mv_type move = Move then moveSpeed ex1 else drawSpeed ex1);
            speedX = axisSpeed degreesX distance baseSpeed;
            speedY = axisSpeed degreesY distance baseSpeed;
            (okB, ex2) = rotateByDegrees hw B degreesX speedX ex1;
            (okA, ex3) = rotateByDegrees hw A degreesY speedY ex2
        in
        if \<not> okB then (Inl (Plotter_failure (length (hw_calls ex1))), ex3)
        else if \<not> okA then (Inl (Plotter_failure (length (hw_calls ex2))), ex3)
        else (Inr (), ex3 \<lparr> currentX := mv_x move, currentY := mv_y move \<rparr>))"

definition simulateMove :: "PlotterMove \<Rightarrow> PathExecutor \<Rightarrow> PathExecutor" where
  "simulateMove move ex = ex \<lparr> currentX := mv_x move, currentY := mv_y move \<rparr>"

text \<open>
  The \<open>for\<close> loop of \<open>executeSequence\<close>; a throw leaves the loop. (The optional progress
  callback is left out.)
\<close>

fun executeMoves ::
  "(nat \<Rightarrow> bool) \<Rightarrow> PlotterMove list \<Rightarrow> PathExecutor \<Rightarrow> (js_error + unit) \<times> PathExecutor" where
  "executeMoves hw [] ex = (Inr (), ex)"
| "executeMoves hw (move # rest) ex =
     (if ex_simulationMode ex then executeMoves hw rest (simulateMove move ex)
      else case executeMove hw move ex of
             (Inl e, ex') \<Rightarrow> (Inl e, ex')
           | (Inr u, ex') \<Rightarrow> executeMoves hw rest ex')"

text \<open>
  \<open>executeSequence\<close>: the \<open>catch\<close> logs and rethrows, so every throw inside the \<open>try\<close>
  is the result. \<open>optimizePlotterMoves\<close> is called without its second argument, that
  is, with \<open>simulationMode\<close> false.
\<close>

definition executeSequence ::
  "(nat \<Rightarrow> bool) \<Rightarrow> PlotterSequence \<Rightarrow> PathExecutor \<Rightarrow> (js_error + unit) \<times> PathExecutor" where
  "executeSequence hw sq ex =
     (let validationResult = validateSequence (ex_validator ex) sq in
      if \<not> valid validationResult then (Inl (Invalid_sequence (reason validationResult)), ex)
      else case optimizePlotterMoves (seq_moves sq) False of
        Inl e \<Rightarrow> (Inl e, ex)
      | Inr optimizedMoves \<Rightarrow>
          (case executeMoves hw optimizedMoves ex of
             (Inl e, ex') \<Rightarrow> (Inl e, ex')
           | (Inr u, ex') \<Rightarrow>
               if \<not> ex_simulationMode ex' then
                 (let (ok, ex'') = rotateByDegrees hw C 0 (Some 30) ex' in
                  if ok then (Inr (), ex'')
                  else (Inl (Plotter_failure (length (hw_calls ex'))), ex''))
               else (Inr (), ex')))"

text \<open>Every call from number \<open>base\<close> on has resolved.\<close>

definition all_ok :: "(nat \<Rightarrow> bool) \<Rightarrow> nat \<Rightarrow> HwCall list \<Rightarrow> bool" where
  "all_ok hw base calls \<longleftrightarrow> (\<forall>k. base \<le> k \<and> k < length calls \<longrightarrow> hw k)"

text \<open>
  A call from number \<open>base\<close> on has rejected and nothing was commanded after it, except
  the rotation of axis A that is started together with a rotation of axis B.
\<close>

definition failed_tail :: "(nat \<Rightarrow> bool) \<Rightarrow> nat \<Rightarrow> HwCall list \<Rightarrow> bool" where
  "failed_tail hw base calls \<longleftrightarrow>
     (\<exists>k. base \<le> k \<and> k < length calls \<and> \<not> hw k \<and> length calls \<le> k + 2
        \<and> (\<forall>j. k < j \<and> j < length calls \<longrightarrow> (\<exists>d sp. calls ! j = RotateByDegrees A d sp)))"

text \<open>An executor outside simulation mode whose validator has no danger zone.\<close>

definition plainExecutor :: PathExecutor where
  "plainExecutor =
     \<lparr> ex_validator = \<lparr> bounds = MOVEMENT_BOUNDS \<lparr> dangerZones := None \<rparr>,
                        calibration = DEFAULT_CALIBRATION, simulationMode = False \<rparr>,
       ex_calibration = DEFAULT_CALIBRATION, ex_simulationMode = False,
       moveSpeed = 50, drawSpeed = 30, currentX = 0, currentY = 0, hw_calls = [] \<rparr>"

text \<open>Pen down at (10,0), then a line to (20,0).\<close>

definition lineSequence :: PlotterSequence where
  "lineSequence =
     \<lparr> seq_name = ''line'',
       seq_moves = [mk_move Move 10 0 (Some (-45)), mk_move Draw 20 0 None],
       seq_boundingBox = \<lparr> bb_minX = 10, bb_maxX = 20, bb_minY = 0, bb_maxY = 0 \<rparr> \<rparr>"

section \<open>Theorems\<close>

subsection \<open>Movement Validator\<close>

text \<open>
  C8, as stated: with bounds 0--148 by 0--210 mm and the danger zone (-10,-10,10,10),
  \<open>validatePath(20,20,5,5)\<close> is invalid and its reason is the zone-crossing one,
  ``Path crosses danger zone''. The code gives another reason at this input.
\<close>

theorem C8_reason_counterexample:
  "reason (validatePath (scenario_validator DEFAULT_CALIBRATION) 20 20 5 5)
     \<noteq> Some (Fixed ''Path crosses danger zone'')"
  by (simp add: validatePath_def validatePosition_def scenario_validator_def MOVEMENT_BOUNDS_def
      A5_width_def A5_height_def zones_of_def isInZone_def result_invalid_def result_valid_def)

text \<open>
  C8, amended: at this input \<open>validatePath\<close> is invalid with the reason
  ``Position is in danger zone'': the end point (5,5) lies inside the zone, and the check
  of the end points returns before the crossing test is reached.
\<close>

theorem C8_validatePath_scenario:
  "validatePath (scenario_validator c) 20 20 5 5
     = \<lparr> valid = False, reason = Some (Fixed ''Position is in danger zone'') \<rparr>"
  by (simp add: validatePath_def validatePosition_def scenario_validator_def MOVEMENT_BOUNDS_def
      A5_width_def A5_height_def zones_of_def isInZone_def result_invalid_def result_valid_def)

subsection \<open>Path Planner: the coordinate guard and close-path\<close>

lemma processCommand_falsy:
  "falsy (cmd_x cmd) \<or> falsy (cmd_y cmd) \<Longrightarrow> processCommand scale st cmd = st"
  by (cases st) (simp add: processCommand_def)

lemma parseLoop_append:
  "parseLoop scale st (xs @ ys) = parseLoop scale (parseLoop scale st xs) ys"
  by (simp add: parseLoop_def)

text \<open>
  C10: a command whose x coordinate is 0 or whose y coordinate is 0 is skipped entirely
  by the loop of \<open>parseSVGPath\<close>: the falsy guard treats 0 like a missing coordinate, so
  the command emits no move and leaves the pen state alone, wherever it stands in the
  command list.
\<close>

theorem C10_zero_coordinate_skipped:
  "cmd_x cmd = Some 0 \<or> cmd_y cmd = Some 0 \<Longrightarrow>
     processCommand scale st cmd = st
     \<and> parseLoop scale st0 (pre @ [cmd] @ post) = parseLoop scale st0 (pre @ post)"
proof -
  assume "cmd_x cmd = Some 0 \<or> cmd_y cmd = Some 0"
  then have f: "falsy (cmd_x cmd) \<or> falsy (cmd_y cmd)"
    by (auto simp: falsy_def)
  have skip: "processCommand scale s cmd = s" for s
    by (rule processCommand_falsy [OF f])
  have "parseLoop scale st0 (pre @ [cmd] @ post)
          = foldl (processCommand scale) (processCommand scale (parseLoop scale st0 pre) cmd) post"
    by (simp add: parseLoop_def)
  also have "\<dots> = parseLoop scale st0 (pre @ post)"
    by (simp add: skip parseLoop_def)
  finally show ?thesis
    by (simp add: skip)
qed

theorem C10_zero_coordinate_skipped_witness:
  "cmd_x (svg_cmd ''L'' (Some 0) (Some 5)) = Some 0
   \<and> processCommand 1 ([mk_move Move 3 4 (Some 0)], False) (svg_cmd ''L'' (Some 0) (Some 5))
       = ([mk_move Move 3 4 (Some 0)], False)
   \<and> parseLoop 1 ([], False) ([svg_cmd ''M'' (Some 3) (Some 4)] @ [svg_cmd ''L'' (Some 0) (Some 5)] @ [])
       = parseLoop 1 ([], False) ([svg_cmd ''M'' (Some 3) (Some 4)] @ [])"
proof -
  have h: "cmd_x (svg_cmd ''L'' (Some 0) (Some 5)) = Some 0 \<or> cmd_y (svg_cmd ''L'' (Some 0) (Some 5)) = Some 0"
    by (simp add: svg_cmd_def)
  show ?thesis
    using C10_zero_coordinate_skipped [OF h, of 1 "([mk_move Move 3 4 (Some 0)], False)"
        "([], False)" "[svg_cmd ''M'' (Some 3) (Some 4)]" "[]"]
    by (simp add: svg_cmd_def)
qed

text \<open>
  C7: the claim is that, whenever moves already exist, processing a close-path (Z)
  command appends a Draw move back to the first recorded point. The code on the path
  \<open>M 10 10 L 20 20 Z\<close>, whose Z command carries no coordinates (as the parser delivers
  it): three moves exist when Z is processed, the guard skips the command before the
  \<open>switch\<close> is reached, and nothing is appended.
\<close>

theorem C7_close_path_skipped:
  "fst (parseLoop 1 ([], False) [svg_cmd ''M'' (Some 10) (Some 10), svg_cmd ''L'' (Some 20) (Some 20)])
     = [mk_move Move 10 10 (Some 0), mk_move Move 20 20 (Some (-45)), mk_move Draw 20 20 None]
   \<and> parseLoop 1 ([], False)
       [svg_cmd ''M'' (Some 10) (Some 10), svg_cmd ''L'' (Some 20) (Some 20), svg_cmd ''Z'' None None]
     = parseLoop 1 ([], False) [svg_cmd ''M'' (Some 10) (Some 10), svg_cmd ''L'' (Some 20) (Some 20)]"
  by (simp add: parseLoop_def processCommand_def svg_cmd_def falsy_def)

text \<open>
  What the \<open>'Z'\<close> case does when it is reached, that is, for a Z command that carries an
  x and a y coordinate, both non-zero: it appends one Draw move back to the point of the
  first recorded move when moves exist, and nothing otherwise. A Z command without an x
  or a y coordinate never reaches it.
\<close>

lemma close_path_reached:
  "(cmd_code cmd = ''Z'' \<and> cmd_x cmd = Some cx \<and> cmd_y cmd = Some cy \<and> cx \<noteq> 0 \<and> cy \<noteq> 0 \<longrightarrow>
      processCommand scale (moves, penDown) cmd =
        (case moves of
           [] \<Rightarrow> ([], penDown)
         | first # _ \<Rightarrow> (moves @ [mk_move Draw (mv_x first) (mv_y first) None], penDown)))
   \<and> (cmd_code cmd = ''Z'' \<and> (cmd_x cmd = None \<or> cmd_y cmd = None) \<longrightarrow>
      processCommand scale (moves, penDown) cmd = (moves, penDown))"
  by (auto simp: processCommand_def falsy_def split: list.splits)

lemma close_path_reached_example:
  "processCommand 1 ([mk_move Move 10 10 (Some 0), mk_move Draw 20 20 None], True)
       (svg_cmd ''Z'' (Some 10) (Some 10))
     = ([mk_move Move 10 10 (Some 0), mk_move Draw 20 20 None, mk_move Draw 10 10 None], True)
   \<and> processCommand 1 ([mk_move Move 10 10 (Some 0), mk_move Draw 20 20 None], True)
       (svg_cmd ''Z'' None None)
     = ([mk_move Move 10 10 (Some 0), mk_move Draw 20 20 None], True)"
  using close_path_reached [of "svg_cmd ''Z'' (Some 10) (Some 10)" 10 10 1
      "[mk_move Move 10 10 (Some 0), mk_move Draw 20 20 None]" True]
    close_path_reached [of "svg_cmd ''Z'' None None" 10 10 1
      "[mk_move Move 10 10 (Some 0), mk_move Draw 20 20 None]" True]
  by (simp add: svg_cmd_def mk_move_def)

subsection \<open>Path Processor: the optimizer\<close>

lemma mergeMove_nonempty: "mergeMove acc move \<noteq> []"
  by (simp add: mergeMove_def)

lemma optimizeStep_merge:
  "acc \<noteq> [] \<Longrightarrow> 0 < i \<Longrightarrow> optimizeStep acc move i = Inr (mergeMove acc move)"
  by (simp add: optimizeStep_def mergeMove_def Let_def)

lemma reduceMoves_foldl:
  "acc \<noteq> [] \<Longrightarrow> 0 < i \<Longrightarrow> reduceMoves acc i ms = Inr (foldl mergeMove acc ms)"
proof (induction ms arbitrary: acc i)
  case Nil
  then show ?case by simp
next
  case (Cons m ms)
  have "reduceMoves acc i (m # ms) = reduceMoves (mergeMove acc m) (Suc i) ms"
    using Cons.prems by (simp add: optimizeStep_merge)
  also have "\<dots> = Inr (foldl mergeMove (mergeMove acc m) ms)"
    by (rule Cons.IH) (simp_all add: mergeMove_nonempty)
  finally show ?case by simp
qed

lemma optimize_Nil: "optimizePlotterMoves [] False = Inr []"
  by (simp add: optimizePlotterMoves_def)

lemma optimize_Cons:
  "optimizePlotterMoves (m # ms) False = Inr (foldl mergeMove [m] ms)"
  by (simp add: optimizePlotterMoves_def optimizeStep_def reduceMoves_foldl)













text \<open>The optimizer on the store and the optimizer on values agree.\<close>

lemma map_upd_last:
  "acc \<noteq> [] \<Longrightarrow> distinct acc \<Longrightarrow> map (h (last acc := v)) acc = butlast (map h acc) @ [v]"
proof (induction acc rule: rev_induct)
  case Nil
  then show ?case by simp
next
  case (snoc a as)
  then have "a \<notin> set as" by simp
  then have "map (h (a := v)) as = map h as"
    by (intro map_cong) auto
  then show ?case by simp
qed

lemma optimizeStepRef_refines:
  assumes d: "distinct (acc @ move # rest)"
    and st: "optimizeStepRef h acc move i = Inr (h', acc')"
  shows "optimizeStep (map h acc) (h move) i = Inr (map h' acc')
     \<and> map h' rest = map h rest \<and> distinct (acc' @ rest)"
proof (cases "i = 0")
  case True
  with st d show ?thesis by (auto simp: optimizeStepRef_def optimizeStep_def)
next
  case False
  with st have ne: "acc \<noteq> []"
    by (auto simp: optimizeStepRef_def split: if_splits)
  show ?thesis
  proof (cases "mv_type (h (last acc)) = mv_type (h move) \<and> mv_type (h move) = Draw")
    case True
    let ?v = "(h (last acc)) \<lparr> mv_x := mv_x (h move), mv_y := mv_y (h move) \<rparr>"
    from st False ne True have h': "h' = h (last acc := ?v)" and acc': "acc' = acc"
      by (auto simp: optimizeStepRef_def Let_def)
    have "last acc \<in> set acc" using ne by simp
    then have "last acc \<notin> set rest" using d by auto
    then have rest: "map h' rest = map h rest"
      unfolding h' by (intro map_cong) auto
    have "map h' acc = butlast (map h acc) @ [?v]"
      unfolding h' using ne d by (intro map_upd_last) auto
    then show ?thesis
      using False ne True rest d acc'
      by (simp add: optimizeStep_def Let_def last_map)
  next
    case False
    with st \<open>i \<noteq> 0\<close> ne have "h' = h" "acc' = acc @ [move]"
      by (auto simp: optimizeStepRef_def Let_def)
    with False \<open>i \<noteq> 0\<close> ne d show ?thesis
      by (auto simp: optimizeStep_def Let_def last_map)
  qed
qed

lemma reduceRefs_refines:
  "distinct (acc @ rest) \<Longrightarrow> reduceRefs h acc i rest = Inr (h', rs) \<Longrightarrow>
     reduceMoves (map h acc) i (map h rest) = Inr (map h' rs)"
proof (induction rest arbitrary: h acc i)
  case Nil
  then show ?case by simp
next
  case (Cons move rest)
  from Cons.prems(2) obtain h1 acc1 where
    st: "optimizeStepRef h acc move i = Inr (h1, acc1)"
    and r: "reduceRefs h1 acc1 (Suc i) rest = Inr (h', rs)"
    by (auto split: sum.splits)
  note s = optimizeStepRef_refines [OF Cons.prems(1) st]
  have "reduceMoves (map h1 acc1) (Suc i) (map h1 rest) = Inr (map h' rs)"
    using s r by (intro Cons.IH) simp_all
  then show ?case
    using s by simp
qed

lemma optimizePlotterMovesRef_refines:
  "distinct moves \<Longrightarrow> optimizePlotterMovesRef h moves False = Inr (h', rs) \<Longrightarrow>
     optimizePlotterMoves (map h moves) False = Inr (map h' rs)"
  using reduceRefs_refines [of "[]" moves h 0 h' rs]
  by (simp add: optimizePlotterMovesRef_def optimizePlotterMoves_def)

lemma optimizeStepRef_total:
  "i = 0 \<or> acc \<noteq> [] \<Longrightarrow>
     \<exists>h1 acc1. optimizeStepRef h acc move i = Inr (h1, acc1) \<and> acc1 \<noteq> []"
  by (cases "i = 0") (simp_all add: optimizeStepRef_def Let_def)

lemma reduceRefs_total:
  "i = 0 \<or> acc \<noteq> [] \<Longrightarrow> \<exists>h' rs. reduceRefs h acc i rest = Inr (h', rs)"
proof (induction rest arbitrary: h acc i)
  case Nil
  then show ?case by simp
next
  case (Cons move rest)
  from optimizeStepRef_total [OF Cons.prems, of h move]
  obtain h1 acc1 where st: "optimizeStepRef h acc move i = Inr (h1, acc1)" and ne: "acc1 \<noteq> []"
    by blast
  from ne have "\<exists>h' rs. reduceRefs h1 acc1 (Suc i) rest = Inr (h', rs)"
    by (intro Cons.IH) simp
  then show ?case
    using st by simp
qed

lemma optimizePlotterMovesRef_total:
  "\<exists>h' rs. optimizePlotterMovesRef h moves False = Inr (h', rs)"
  by (simp add: optimizePlotterMovesRef_def reduceRefs_total)










subsection \<open>Command Queue: the invariants of its runs\<close>

lemma fifo_inv_init: "fifo_inv initialQueue"
  by (simp add: fifo_inv_def initialQueue_def)

lemma fifo_inv_processQueue: "fifo_inv s \<Longrightarrow> processQueue s = s"
  by (auto simp: fifo_inv_def processQueue_def split: list.splits)

lemma fifo_inv_add: "fifo_inv s \<Longrightarrow> fifo_inv (add origin s)"
  by (auto simp: fifo_inv_def add_def processQueue_def split: list.splits)

lemma fifo_inv_settle: "fifo_inv s \<Longrightarrow> c \<in> fst ` set (inflight s) \<Longrightarrow> fifo_inv (settle c oc s)"
  by (cases "inflight s") (auto simp: fifo_inv_def settle_def)

lemma fifo_inv_resume: "fifo_inv s \<Longrightarrow> c \<in> set (resumable s) \<Longrightarrow> fifo_inv (resume c s)"
  by (cases "resumable s") (auto simp: fifo_inv_def resume_def processQueue_def split: list.splits)

lemma fifo_inv_step:
  "fifo_inv s \<Longrightarrow> e \<noteq> Clear \<Longrightarrow> step s e = Some s' \<Longrightarrow> fifo_inv s'"
proof (cases e)
  case (Add origin)
  assume "fifo_inv s" "step s e = Some s'"
  with Add show ?thesis by (auto intro: fifo_inv_add)
next
  case ProcessQueue
  assume "fifo_inv s" "step s e = Some s'"
  with ProcessQueue show ?thesis by (auto simp: fifo_inv_processQueue)
next
  case (Settle c oc)
  assume "fifo_inv s" "step s e = Some s'"
  with Settle show ?thesis by (auto intro: fifo_inv_settle split: if_splits)
next
  case (Timeout c)
  assume inv: "fifo_inv s" and st: "step s e = Some s'"
  show ?thesis
  proof (cases "c \<in> fst ` set (inflight s)")
    case True
    with inv st Timeout show ?thesis by (auto intro: fifo_inv_settle split: if_splits)
  next
    case False
    with st Timeout have "s' = s \<lparr> timers := filter (\<lambda>t. fst t \<noteq> c) (timers s) \<rparr>"
      by (auto split: if_splits)
    with inv show ?thesis by (auto simp: fifo_inv_def)
  qed
next
  case (Resume c)
  assume "fifo_inv s" "step s e = Some s'"
  with Resume show ?thesis by (auto intro: fifo_inv_resume split: if_splits)
next
  case Clear
  assume "e \<noteq> Clear"
  with Clear show ?thesis by simp
next
  case (Advance d)
  assume "fifo_inv s" "step s e = Some s'"
  with Advance show ?thesis by (auto simp: fifo_inv_def)
qed

lemma fifo_inv_run:
  "fifo_inv s \<Longrightarrow> Clear \<notin> set evs \<Longrightarrow> run s evs = Some s' \<Longrightarrow> fifo_inv s'"
proof (induction evs arbitrary: s)
  case Nil
  then show ?case by simp
next
  case (Cons e es)
  from Cons.prems(3) obtain s1 where s1: "step s e = Some s1" and r: "run s1 es = Some s'"
    by (auto split: option.splits)
  have "fifo_inv s1"
    using Cons.prems(1,2) s1 by (intro fifo_inv_step [of s e s1]) auto
  then show ?case
    using Cons.IH [of s1] Cons.prems(2) r by simp
qed

lemma timer_inv_init: "timer_inv initialQueue"
  by (simp add: timer_inv_def initialQueue_def)

lemma timer_inv_processQueue: "timer_inv s \<Longrightarrow> timer_inv (processQueue s)"
  by (cases "queue s") (auto simp: timer_inv_def processQueue_def)

lemma timer_inv_fields:
  "timer_inv s \<Longrightarrow> inflight s' = inflight s \<Longrightarrow> started s' = started s \<Longrightarrow> timers s' = timers s
     \<Longrightarrow> now s \<le> now s' \<Longrightarrow> timer_inv s'"
  unfolding timer_inv_def by (metis order_trans)

lemma timer_inv_settle: "timer_inv s \<Longrightarrow> timer_inv (settle c oc s)"
  by (auto simp: timer_inv_def settle_def)

lemma timer_inv_step: "timer_inv s \<Longrightarrow> step s e = Some s' \<Longrightarrow> timer_inv s'"
proof (cases e)
  case (Add origin)
  assume inv: "timer_inv s" and st: "step s e = Some s'"
  have "timer_inv (s \<lparr> queue := queue s @ [(submitted s, origin)], submitted := Suc (submitted s) \<rparr>)"
    by (rule timer_inv_fields [OF inv]) simp_all
  then show ?thesis
    using st Add by (auto simp: add_def intro: timer_inv_processQueue)
next
  case ProcessQueue
  assume "timer_inv s" "step s e = Some s'"
  with ProcessQueue show ?thesis by (auto intro: timer_inv_processQueue)
next
  case (Settle c oc)
  assume "timer_inv s" "step s e = Some s'"
  with Settle show ?thesis by (auto intro: timer_inv_settle split: if_splits)
next
  case (Timeout c)
  assume inv: "timer_inv s" and st: "step s e = Some s'"
  show ?thesis
  proof (cases "c \<in> fst ` set (inflight s)")
    case True
    with inv st Timeout show ?thesis by (auto intro: timer_inv_settle split: if_splits)
  next
    case False
    with st Timeout have s': "s' = s \<lparr> timers := filter (\<lambda>t. fst t \<noteq> c) (timers s) \<rparr>"
      by (auto split: if_splits)
    show ?thesis
      unfolding timer_inv_def
    proof (intro allI impI)
      fix k assume k: "(k, ViaExecuteCommand) \<in> set (inflight s')"
      then have kin: "(k, ViaExecuteCommand) \<in> set (inflight s)" by (simp add: s')
      then have "k \<noteq> c" using False by force
      moreover obtain t where "(k, t) \<in> set (started s)" "t \<le> now s"
        "(k, t + COMMAND_TIMEOUT) \<in> set (timers s)"
        using inv kin unfolding timer_inv_def by blast
      ultimately show "\<exists>t. (k, t) \<in> set (started s') \<and> t \<le> now s'
          \<and> (k, t + COMMAND_TIMEOUT) \<in> set (timers s')"
        by (auto simp: s')
    qed
  qed
next
  case (Resume c)
  assume inv: "timer_inv s" and st: "step s e = Some s'"
  have "timer_inv (s \<lparr> resumable := filter (\<lambda>k. k \<noteq> c) (resumable s),
                       executing := False, currentCommand := None \<rparr>)"
    by (rule timer_inv_fields [OF inv]) simp_all
  then show ?thesis
    using st Resume by (auto simp: resume_def intro: timer_inv_processQueue split: if_splits)
next
  case Clear
  assume inv: "timer_inv s" and st: "step s e = Some s'"
  have "timer_inv (clear s)"
    by (rule timer_inv_fields [OF inv]) (simp_all add: clear_def)
  then show ?thesis using st Clear by simp
next
  case (Advance d)
  assume inv: "timer_inv s" and st: "step s e = Some s'"
  have "timer_inv (s \<lparr> now := now s + d \<rparr>)"
    by (rule timer_inv_fields [OF inv]) simp_all
  then show ?thesis using st Advance by simp
qed

lemma timer_inv_run: "timer_inv s \<Longrightarrow> run s evs = Some s' \<Longrightarrow> timer_inv s'"
proof (induction evs arbitrary: s)
  case Nil
  then show ?case by simp
next
  case (Cons e es)
  from Cons.prems(2) obtain s1 where s1: "step s e = Some s1" and r: "run s1 es = Some s'"
    by (auto split: option.splits)
  show ?case
    using Cons.IH [OF timer_inv_step [OF Cons.prems(1) s1] r] .
qed


text \<open>
  C1: the claim is that no run of \<open>add\<close>, \<open>processQueue\<close> and \<open>clear\<close> has two \<open>execute\<close>
  bodies started and unsettled at once, also when \<open>clear\<close> is called while a command is
  in flight. The code at that input: after \<open>add\<close>, \<open>clear\<close>, \<open>add\<close> the commands 0 and 1
  are both in flight and no handle has settled. And when command 0 then settles, the
  continuation of its \<open>processQueue\<close> resets the flag under command 1, so that one more
  \<open>add\<close> puts the commands 1 and 2 in flight together.
\<close>

theorem C1_clear_while_in_flight:
  "map_option inflight (run initialQueue [Add Direct, Clear, Add Direct])
     = Some [(0, Direct), (1, Direct)]
   \<and> map_option handles (run initialQueue [Add Direct, Clear, Add Direct]) = Some []
   \<and> map_option inflight
         (run initialQueue [Add Direct, Clear, Add Direct, Settle 0 Resolved, Resume 0, Add Direct])
     = Some [(1, Direct), (2, Direct)]"
  by (simp add: initialQueue_def add_def clear_def settle_def resume_def processQueue_def)

text \<open>
  The order of the queue in the runs in which \<open>clear\<close> is not called: the commands whose
  handles have settled, the command in flight and the waiting commands, in this order,
  are the submission sequence \<open>0, 1, \<dots>\<close>; the \<open>execute\<close> bodies started are the
  settled ones followed by the one in flight. So bodies start and handles settle in
  submission order, at most one command is in flight, every command submitted before the
  one in flight has settled, and waiting work is never stranded: while the queue is not
  empty a command is in flight or a continuation of \<open>processQueue\<close> is ready.
\<close>

lemma fifo_order_without_clear:
  "Clear \<notin> set evs \<Longrightarrow> run initialQueue evs = Some s \<Longrightarrow>
     map fst (handles s) @ map fst (inflight s) @ map fst (queue s) = [0 ..< submitted s]
     \<and> map fst (started s) = map fst (handles s) @ map fst (inflight s)
     \<and> length (inflight s) \<le> 1
     \<and> (\<forall>c \<in> fst ` set (inflight s). \<forall>k < c. k \<in> fst ` set (handles s))
     \<and> (queue s \<noteq> [] \<longrightarrow> inflight s \<noteq> [] \<or> resumable s \<noteq> [])"
proof -
  assume nc: "Clear \<notin> set evs" and r: "run initialQueue evs = Some s"
  have inv: "fifo_inv s"
    by (rule fifo_inv_run [OF fifo_inv_init nc r])
  then have order: "map fst (handles s) @ map fst (inflight s) @ map fst (queue s) = [0 ..< submitted s]"
    and st: "map fst (started s) = map fst (handles s) @ map fst (inflight s)"
    and one: "length (inflight s) \<le> 1"
    and live: "queue s \<noteq> [] \<longrightarrow> inflight s \<noteq> [] \<or> resumable s \<noteq> []"
    by (auto simp: fifo_inv_def)
  have earlier: "k \<in> fst ` set (handles s)" if c: "c \<in> fst ` set (inflight s)" and k: "k < c" for c k
  proof -
    from c one obtain o' where inf: "inflight s = [(c, o')]"
      by (cases "inflight s") auto
    let ?h = "map fst (handles s)"
    have eq: "?h @ c # map fst (queue s) = [0 ..< submitted s]"
      using order inf by simp
    have "([0 ..< submitted s]) ! length ?h = c"
      using eq by (metis nth_append_length)
    moreover have "length ?h < submitted s"
      using arg_cong [OF eq, of length] by simp
    ultimately have len: "length ?h = c" by simp
    have "?h = take c [0 ..< submitted s]"
      using eq len by (metis append_eq_conv_conj)
    also have "\<dots> = [0 ..< c]"
      using \<open>length ?h < submitted s\<close> len by simp
    finally have "set ?h = {0 ..< c}" by simp
    then show ?thesis using k by (metis atLeastLessThan_iff set_map zero_le)
  qed
  show ?thesis
    using order st one live earlier by blast
qed

lemma fifo_order_without_clear_example:
  "Clear \<notin> set [Add Direct, Add Direct, Settle 0 Resolved, Resume 0]
   \<and> (\<exists>s. run initialQueue [Add Direct, Add Direct, Settle 0 Resolved, Resume 0] = Some s
        \<and> handles s = [(0, Resolved)] \<and> inflight s = [(1, Direct)] \<and> queue s = []
        \<and> map fst (started s) = [0, 1]
        \<and> (\<forall>c \<in> fst ` set (inflight s). \<forall>k < c. k \<in> fst ` set (handles s)))"
proof -
  have nc: "Clear \<notin> set [Add Direct, Add Direct, Settle 0 Resolved, Resume 0]"
    by simp
  have r: "run initialQueue [Add Direct, Add Direct, Settle 0 Resolved, Resume 0]
      = Some \<lparr> queue = [], executing = True, currentCommand = Some (1, Direct), submitted = 2,
          started = [(0, 0), (1, 0)], inflight = [(1, Direct)], handles = [(0, Resolved)],
          resumable = [], timers = [], now = 0 \<rparr>"
    by (simp add: initialQueue_def add_def settle_def resume_def processQueue_def)
  show ?thesis
    using fifo_order_without_clear [OF nc r] nc r by simp
qed

text \<open>
  C3: the claim is that operations submitted through \<open>add\<close> start, and their handles
  settle, strictly in submission order, none beginning before every earlier one has
  settled. The code after \<open>add\<close>, \<open>clear\<close>, \<open>add\<close>: operation 1 has started while the
  handle of operation 0 has not settled, and when operation 1 then completes its handle
  settles first. (The same defect as in C1: \<open>clear\<close> resets the flag under the operation
  in flight.)
\<close>

theorem C3_order_broken_by_clear:
  "map_option started (run initialQueue [Add Direct, Clear, Add Direct]) = Some [(0, 0), (1, 0)]
   \<and> map_option handles (run initialQueue [Add Direct, Clear, Add Direct]) = Some []
   \<and> map_option handles (run initialQueue [Add Direct, Clear, Add Direct, Settle 1 Resolved])
       = Some [(1, Resolved)]
   \<and> map_option inflight (run initialQueue [Add Direct, Clear, Add Direct, Settle 1 Resolved])
       = Some [(0, Direct)]"
  by (simp add: initialQueue_def add_def clear_def settle_def processQueue_def)

text \<open>
  C5, as stated: every operation queued through the Command Queue carries a timeout.
  \<open>add\<close> itself arms no timer: for an operation submitted directly that never completes,
  after 10,000 ms no timer exists that could fire, no handle has settled, and the next
  command still waits in the queue.
\<close>

theorem C5_direct_add_counterexample:
  "run initialQueue [Add Direct, Add Direct, Advance 10000]
     = Some \<lparr> queue = [(1, Direct)], executing = True, currentCommand = Some (0, Direct),
         submitted = 2, started = [(0, 0)], inflight = [(0, Direct)], handles = [],
         resumable = [], timers = [], now = 10000 \<rparr>
   \<and> run initialQueue [Add Direct, Add Direct, Advance 10000, Timeout 0] = None"
  by (simp add: initialQueue_def add_def processQueue_def)

text \<open>
  C5, amended: \<open>CommandQueue.add\<close> attaches no timeout; the timeout of
  \<open>COMMAND_TIMEOUT\<close> = 5,000 ms is attached by \<open>executeCommand\<close> of ManualControl, which
  wraps the operation before it calls \<open>add\<close>. In every run, a command submitted through
  \<open>executeCommand\<close> that is in flight started at some time \<open>t\<close> and has its timer armed
  for \<open>t\<close> + 5,000; once that time is reached the timer can fire, its firing rejects the
  caller's handle and ends the \<open>execute\<close> body, and the continuation of \<open>processQueue\<close>
  that then runs starts the next waiting command, if there is one.
\<close>

theorem C5_timeout:
  "run initialQueue evs = Some s \<Longrightarrow> (c, ViaExecuteCommand) \<in> set (inflight s) \<Longrightarrow>
     COMMAND_TIMEOUT = 5000
     \<and> (\<exists>t. (c, t) \<in> set (started s) \<and> t \<le> now s \<and> (c, t + COMMAND_TIMEOUT) \<in> set (timers s)
          \<and> (t + COMMAND_TIMEOUT \<le> now s \<longrightarrow>
               (\<exists>s'. step s (Timeout c) = Some s'
                  \<and> (c, Rejected) \<in> set (handles s')
                  \<and> c \<notin> fst ` set (inflight s')
                  \<and> queue s' = queue s
                  \<and> (\<exists>s''. step s' (Resume c) = Some s''
                        \<and> (case queue s' of
                              [] \<Rightarrow> queue s'' = []
                            | q # rest \<Rightarrow> q \<in> set (inflight s'') \<and> queue s'' = rest)))))"
proof -
  assume r: "run initialQueue evs = Some s" and c: "(c, ViaExecuteCommand) \<in> set (inflight s)"
  have "timer_inv s"
    by (rule timer_inv_run [OF timer_inv_init r])
  with c obtain t where t: "(c, t) \<in> set (started s)" "t \<le> now s"
      "(c, t + COMMAND_TIMEOUT) \<in> set (timers s)"
    unfolding timer_inv_def by blast
  have cin: "c \<in> fst ` set (inflight s)"
    using c by force
  have fire: "\<exists>s'. step s (Timeout c) = Some s'
                  \<and> (c, Rejected) \<in> set (handles s')
                  \<and> c \<notin> fst ` set (inflight s')
                  \<and> queue s' = queue s
                  \<and> (\<exists>s''. step s' (Resume c) = Some s''
                        \<and> (case queue s' of
                              [] \<Rightarrow> queue s'' = []
                            | q # rest \<Rightarrow> q \<in> set (inflight s'') \<and> queue s'' = rest))"
    if due: "t + COMMAND_TIMEOUT \<le> now s"
  proof -
    have en: "list_ex (\<lambda>x. fst x = c \<and> snd x \<le> now s) (timers s)"
      unfolding list_ex_iff using t(3) due by force
    have st: "step s (Timeout c) = Some (settle c Rejected s)"
      using en cin by simp
    have res: "step (settle c Rejected s) (Resume c) = Some (resume c (settle c Rejected s))"
      by (simp add: settle_def)
    have nxt: "case queue (settle c Rejected s) of
                 [] \<Rightarrow> queue (resume c (settle c Rejected s)) = []
               | q # rest \<Rightarrow> q \<in> set (inflight (resume c (settle c Rejected s)))
                    \<and> queue (resume c (settle c Rejected s)) = rest"
      by (simp add: settle_def resume_def processQueue_def split: list.splits)
    have h: "(c, Rejected) \<in> set (handles (settle c Rejected s))"
      by (simp add: settle_def)
    have nf: "c \<notin> fst ` set (inflight (settle c Rejected s))"
      by (auto simp: settle_def)
    have q: "queue (settle c Rejected s) = queue s"
      by (simp add: settle_def)
    show ?thesis
      using st res nxt h nf q by blast
  qed
  have ct: "COMMAND_TIMEOUT = 5000"
    by (simp add: COMMAND_TIMEOUT_def)
  show ?thesis
    by (intro conjI exI [of _ t] impI ct t fire)
qed

theorem C5_timeout_witness:
  "\<exists>s. run initialQueue [Add ViaExecuteCommand, Add Direct, Advance 5000] = Some s
      \<and> (0, ViaExecuteCommand) \<in> set (inflight s)
      \<and> (0, 0) \<in> set (started s) \<and> (0, 5000) \<in> set (timers s) \<and> now s = 5000
      \<and> (\<exists>s'. step s (Timeout 0) = Some s' \<and> (0, Rejected) \<in> set (handles s')
            \<and> (\<exists>s''. step s' (Resume 0) = Some s'' \<and> (1, Direct) \<in> set (inflight s'')))"
proof -
  have r: "run initialQueue [Add ViaExecuteCommand, Add Direct, Advance 5000]
      = Some \<lparr> queue = [(1, Direct)], executing = True, currentCommand = Some (0, ViaExecuteCommand),
          submitted = 2, started = [(0, 0)], inflight = [(0, ViaExecuteCommand)], handles = [],
          resumable = [], timers = [(0, 5000)], now = 5000 \<rparr>"
    by (simp add: initialQueue_def add_def processQueue_def COMMAND_TIMEOUT_def)
  show ?thesis
    using C5_timeout [OF r, of 0] r
    by (auto simp: COMMAND_TIMEOUT_def)
qed

subsection \<open>Safety Controller\<close>

lemma notify_failures:
  "foldl (\<lambda>s' p. notifyViolation (Failed_to_stop_motor p) N_error s') s ps
     = s \<lparr> notifications := notifications s @ map (\<lambda>p. (Failed_to_stop_motor p, N_error)) ps \<rparr>"
  by (induction ps arbitrary: s) (simp_all add: notifyViolation_def)

lemma emergencyStop_with_hub:
  "hub s = Some dev \<Longrightarrow>
     emergencyStop ok s =
       s \<lparr> monitoring := False,
           emergencyStops := Suc (emergencyStops s),
           brakeCalls := brakeCalls s @ filter dev [A, B, C],
           notifications := notifications s
             @ map (\<lambda>p. (Failed_to_stop_motor p, N_error)) (filter (\<lambda>p. \<not> ok p) (filter dev [A, B, C]))
             @ [(Emergency_stop_activated, N_info)] \<rparr>"
  by (simp add: emergencyStop_def emergencyStop_finish_def emergencyStop_begin_def
      stopMonitoring_def connectedPorts_def notify_failures notifyViolation_def Let_def)

lemma Port_in_all: "p \<in> set [A, B, C]"
  by (cases p) simp_all

text \<open>
  C2, as stated: after \<open>emergencyStop()\<close> completes, the pending count of the Command
  Queue is 0. With one command in flight and one waiting, the emergency stop of the
  Safety Controller brakes the three axes and leaves the waiting command in the queue.
\<close>

theorem C2_queue_counterexample:
  "pendingCommands (sys_queue (systemEmergencyStop (\<lambda>p. True)
      \<lparr> sys_queue = add Direct (add Direct initialQueue),
        sys_safety = newSafetyController (Some (\<lambda>p. True)) \<rparr>)) = 1
   \<and> brakeCalls (sys_safety (systemEmergencyStop (\<lambda>p. True)
      \<lparr> sys_queue = add Direct (add Direct initialQueue),
        sys_safety = newSafetyController (Some (\<lambda>p. True)) \<rparr>)) = [A, B, C]"
  by (simp add: systemEmergencyStop_def pendingCommands_def add_def processQueue_def
      initialQueue_def emergencyStop_with_hub newSafetyController_def)

text \<open>
  C2, amended: the emergency stop of the Safety Controller stops the monitor and calls
  \<open>brake()\<close> once on every port among A, B and C that has a motor, in this order and
  whatever the outcome of the other brakes; each brake that fails is reported, and the
  stop is then reported as activated. It does not touch the Command Queue: the waiting
  commands stay queued.
\<close>

theorem C2_emergencyStop:
  "hub (sys_safety sys) = Some dev \<Longrightarrow>
     brakeCalls (sys_safety (systemEmergencyStop ok sys))
       = brakeCalls (sys_safety sys) @ filter dev [A, B, C]
     \<and> (\<forall>p. dev p \<longrightarrow> p \<in> set (brakeCalls (sys_safety (systemEmergencyStop ok sys))))
     \<and> (\<forall>p. dev p \<and> \<not> ok p \<longrightarrow>
           (Failed_to_stop_motor p, N_error)
             \<in> set (notifications (sys_safety (systemEmergencyStop ok sys))))
     \<and> (Emergency_stop_activated, N_info)
           \<in> set (notifications (sys_safety (systemEmergencyStop ok sys)))
     \<and> monitoring (sys_safety (systemEmergencyStop ok sys)) = False
     \<and> sys_queue (systemEmergencyStop ok sys) = sys_queue sys"
proof -
  assume h: "hub (sys_safety sys) = Some dev"
  have braked: "p \<in> set (filter dev [A, B, C])" if "dev p" for p
    unfolding set_filter using that Port_in_all [of p] by blast
  have failed: "(Failed_to_stop_motor p, N_error)
      \<in> (\<lambda>p. (Failed_to_stop_motor p, N_error)) ` set (filter (\<lambda>p. \<not> ok p) (filter dev [A, B, C]))"
    if "dev p" "\<not> ok p" for p
    unfolding set_filter using that Port_in_all [of p] by blast
  show ?thesis
    using braked failed
    by (simp add: systemEmergencyStop_def emergencyStop_with_hub [OF h] del: filter.simps)
qed

theorem C2_emergencyStop_witness:
  "hub (newSafetyController (Some (\<lambda>p. p \<noteq> C))) = Some (\<lambda>p. p \<noteq> C)
   \<and> brakeCalls (sys_safety (systemEmergencyStop (\<lambda>p. p \<noteq> A)
        \<lparr> sys_queue = add Direct (add Direct initialQueue),
          sys_safety = newSafetyController (Some (\<lambda>p. p \<noteq> C)) \<rparr>)) = [A, B]
   \<and> (Failed_to_stop_motor A, N_error)
        \<in> set (notifications (sys_safety (systemEmergencyStop (\<lambda>p. p \<noteq> A)
        \<lparr> sys_queue = add Direct (add Direct initialQueue),
          sys_safety = newSafetyController (Some (\<lambda>p. p \<noteq> C)) \<rparr>)))
   \<and> sys_queue (systemEmergencyStop (\<lambda>p. p \<noteq> A)
        \<lparr> sys_queue = add Direct (add Direct initialQueue),
          sys_safety = newSafetyController (Some (\<lambda>p. p \<noteq> C)) \<rparr>)
      = add Direct (add Direct initialQueue)"
proof -
  have h: "hub (sys_safety \<lparr> sys_queue = add Direct (add Direct initialQueue),
          sys_safety = newSafetyController (Some (\<lambda>p. p \<noteq> C)) \<rparr>) = Some (\<lambda>p. p \<noteq> C)"
    by (simp add: newSafetyController_def)
  have a: "A \<noteq> C \<and> \<not> (A \<noteq> A)"
    by simp
  show ?thesis
    using C2_emergencyStop [OF h, of "\<lambda>p. p \<noteq> A"] a
    by (simp add: newSafetyController_def)
qed

lemma cooling_handleViolation:
  "cooling t0 n s \<Longrightarrow> cooling t0 n (handleViolation port why v s)"
  by (auto simp: cooling_def handleViolation_def notifyViolation_def emergencyStop_begin_def
      stopMonitoring_def Let_def)

lemma cooling_checkLimits:
  "cooling t0 n s \<Longrightarrow> cooling t0 n (checkLimits port status s)"
  by (simp add: checkLimits_def Let_def cooling_handleViolation)

lemma emergencyStop_finish_fields:
  "clock (emergencyStop_finish ok s) = clock s
   \<and> stopRequested (emergencyStop_finish ok s) = stopRequested s
   \<and> emergencyStops (emergencyStop_finish ok s) = emergencyStops s
   \<and> cooldowns (emergencyStop_finish ok s) = cooldowns s"
  unfolding emergencyStop_finish_def notify_failures
  by (simp add: notifyViolation_def split: option.splits)

lemma cooling_resume:
  "cooling t0 n s \<Longrightarrow> cooling t0 n (handleViolation_resume ok s)"
  by (auto simp: cooling_def handleViolation_resume_def Let_def emergencyStop_finish_fields)

lemma cooling_step:
  "cooling t0 n s \<Longrightarrow> safety_step s e = Some s' \<Longrightarrow> cooling t0 n s'"
proof (cases e)
  case (CheckLimits port status)
  assume "cooling t0 n s" "safety_step s e = Some s'"
  with CheckLimits show ?thesis by (auto intro: cooling_checkLimits)
next
  case (StopSettled ok)
  assume "cooling t0 n s" "safety_step s e = Some s'"
  with StopSettled show ?thesis by (auto intro: cooling_resume split: if_splits)
next
  case CooldownElapsed
  assume inv: "cooling t0 n s" and st: "safety_step s e = Some s'"
  from st CooldownElapsed obtain d ds where
    f: "filter (\<lambda>d. d \<le> clock s) (cooldowns s) = d # ds"
    and s': "s' = s \<lparr> stopRequested := False, cooldowns := remove1 d (cooldowns s) \<rparr>"
    by (auto split: list.splits)
  have "d \<in> set (filter (\<lambda>d. d \<le> clock s) (cooldowns s))"
    by (simp add: f)
  then have d: "d \<in> set (cooldowns s)" "d \<le> clock s"
    by simp_all
  have late: "t0 + 1000 \<le> clock s"
  proof (rule ccontr)
    assume "\<not> t0 + 1000 \<le> clock s"
    then have "t0 + 1000 \<le> d"
      using inv d(1) by (auto simp: cooling_def)
    with d(2) \<open>\<not> t0 + 1000 \<le> clock s\<close> show False by simp
  qed
  show ?thesis
    using inv late by (simp add: cooling_def s')
next
  case (Elapse d)
  assume "cooling t0 n s" "safety_step s e = Some s'"
  with Elapse show ?thesis by (auto simp: cooling_def)
qed

lemma cooling_run:
  "cooling t0 n s \<Longrightarrow> safety_run s evs = Some s' \<Longrightarrow> cooling t0 n s'"
proof (induction evs arbitrary: s)
  case Nil
  then show ?case by simp
next
  case (Cons e es)
  from Cons.prems(2) obtain s1 where s1: "safety_step s e = Some s1"
    and r: "safety_run s1 es = Some s'"
    by (auto split: option.splits)
  show ?case
    by (rule Cons.IH [OF cooling_step [OF Cons.prems(1) s1] r])
qed

text \<open>
  C9: a tick checks the status of axis A with temperature 55 against the limit 50, every
  other field within its limit, in a controller whose stop flag is clear and that has
  no reset timer armed. Then \<open>handleViolation\<close> is called exactly once, for the
  temperature, and it starts exactly one emergency stop; and whatever happens next
  (further checks that find violations, the brakes settling, timers, time passing), as
  long as less than 1,000 ms have passed since the tick, the number of emergency stops
  stays the same.
\<close>

theorem C9_temperature_violation:
  assumes "stopRequested s = False" and "cooldowns s = []"
    and "maxTemperature (limits s A) = 50" and "temperature st = 55"
    and "minDegrees (limits s A) \<le> currentPosition st"
    and "currentPosition st \<le> maxDegrees (limits s A)"
    and "\<bar>speed st\<bar> \<le> maxSpeed (limits s A)"
    and "current st \<le> maxCurrent (limits s A)"
    and "load st \<le> maxMotorLoad (limits s A)"
  shows "violations (checkLimits A st s) = violations s @ [(A, ''Temperature too high'', 55)]
     \<and> emergencyStops (checkLimits A st s) = emergencyStops s + 1
     \<and> brakeCalls (checkLimits A st s) = brakeCalls s @ connectedPorts s
     \<and> (\<forall>evs s'. safety_run (checkLimits A st s) evs = Some s' \<and> clock s' < clock s + 1000
           \<longrightarrow> emergencyStops s' = emergencyStops s + 1)"
proof -
  have one: "checkLimits A st s = handleViolation A ''Temperature too high'' 55 s"
    using assms by (simp add: checkLimits_def Let_def)
  have v: "violations (checkLimits A st s) = violations s @ [(A, ''Temperature too high'', 55)]"
    and e: "emergencyStops (checkLimits A st s) = emergencyStops s + 1"
    and b: "brakeCalls (checkLimits A st s) = brakeCalls s @ connectedPorts s"
    using assms(1)
    by (simp_all add: one handleViolation_def notifyViolation_def emergencyStop_begin_def
        stopMonitoring_def connectedPorts_def Let_def)
  have c: "cooling (clock s) (emergencyStops s + 1) (checkLimits A st s)"
    using assms(1,2)
    by (simp add: one cooling_def handleViolation_def notifyViolation_def emergencyStop_begin_def
        stopMonitoring_def Let_def)
  have later: "emergencyStops s' = emergencyStops s + 1"
    if "safety_run (checkLimits A st s) evs = Some s'" and "clock s' < clock s + 1000" for evs s'
    using cooling_run [OF c that(1)] that(2) by (simp add: cooling_def)
  show ?thesis
    using v e b later by blast
qed

theorem C9_temperature_violation_witness:
  "checkLimits A \<lparr> currentPosition = 0, speed = 0, current = 0, temperature = 55, load = 0 \<rparr>
       (newSafetyController (Some (\<lambda>p. True)))
     = handleViolation A ''Temperature too high'' 55 (newSafetyController (Some (\<lambda>p. True)))
   \<and> violations (checkLimits A \<lparr> currentPosition = 0, speed = 0, current = 0, temperature = 55, load = 0 \<rparr>
       (newSafetyController (Some (\<lambda>p. True)))) = [(A, ''Temperature too high'', 55)]
   \<and> emergencyStops (checkLimits A \<lparr> currentPosition = 0, speed = 0, current = 0, temperature = 55, load = 0 \<rparr>
       (newSafetyController (Some (\<lambda>p. True)))) = 1
   \<and> (\<exists>s'. safety_run (checkLimits A \<lparr> currentPosition = 0, speed = 0, current = 0, temperature = 55, load = 0 \<rparr>
              (newSafetyController (Some (\<lambda>p. True))))
            [CheckLimits B \<lparr> currentPosition = 0, speed = 0, current = 0, temperature = 60, load = 0 \<rparr>,
             Elapse 500, StopSettled (\<lambda>p. True), Elapse 499,
             CheckLimits C \<lparr> currentPosition = 0, speed = 0, current = 0, temperature = 70, load = 0 \<rparr>]
          = Some s'
        \<and> clock s' = 999 \<and> length (violations s') = 3 \<and> emergencyStops s' = 1)"
proof -
  let ?s = "newSafetyController (Some (\<lambda>p. True))"
  let ?st = "\<lparr> currentPosition = 0, speed = 0, current = 0, temperature = 55, load = 0 \<rparr>"
  let ?evs = "[CheckLimits B \<lparr> currentPosition = 0, speed = 0, current = 0, temperature = 60, load = 0 \<rparr>,
             Elapse 500, StopSettled (\<lambda>p. True), Elapse 499,
             CheckLimits C \<lparr> currentPosition = 0, speed = 0, current = 0, temperature = 70, load = 0 \<rparr>]"
  have one: "checkLimits A ?st ?s = handleViolation A ''Temperature too high'' 55 ?s"
    by (simp add: checkLimits_def Let_def newSafetyController_def defaultLimits_def)
  obtain s' where r: "safety_run (checkLimits A ?st ?s) ?evs = Some s'"
    and f: "clock s' = 999" "length (violations s') = 3"
    by (simp add: one checkLimits_def Let_def newSafetyController_def defaultLimits_def
        handleViolation_def notifyViolation_def emergencyStop_begin_def stopMonitoring_def
        connectedPorts_def handleViolation_resume_def emergencyStop_finish_def)
  have inst: "violations (checkLimits A ?st ?s) = violations ?s @ [(A, ''Temperature too high'', 55)]
     \<and> emergencyStops (checkLimits A ?st ?s) = emergencyStops ?s + 1
     \<and> brakeCalls (checkLimits A ?st ?s) = brakeCalls ?s @ connectedPorts ?s
     \<and> (\<forall>evs s'. safety_run (checkLimits A ?st ?s) evs = Some s' \<and> clock s' < clock ?s + 1000
           \<longrightarrow> emergencyStops s' = emergencyStops ?s + 1)"
    by (rule C9_temperature_violation)
      (simp_all add: newSafetyController_def defaultLimits_def)
  have soon: "clock s' < clock ?s + 1000"
    using f(1) by (simp add: newSafetyController_def)
  from inst r soon have "emergencyStops s' = emergencyStops ?s + 1"
    by blast
  then have es: "emergencyStops s' = 1"
    by (simp add: newSafetyController_def)
  from inst have v: "violations (checkLimits A ?st ?s) = [(A, ''Temperature too high'', 55)]"
    and e: "emergencyStops (checkLimits A ?st ?s) = 1"
    by (simp_all add: newSafetyController_def)
  show ?thesis
    by (intro conjI exI [of _ s'] one v e r f es)
qed

subsection \<open>Path Executor: the pen after a sequence\<close>

lemma sqrt_100: "sqrt 100 = 10"
  by (rule real_sqrt_unique) simp_all

lemma lineSequence_valid: "valid (validateSequence (ex_validator plainExecutor) lineSequence)"
  by (simp add: validateSequence_def plainExecutor_def lineSequence_def MOVEMENT_BOUNDS_def
      A5_width_def A5_height_def validatePath_def validatePosition_def zones_of_def mk_move_def
      result_valid_def result_invalid_def DEFAULT_CALIBRATION_def MAX_DEGREES_PER_MOVE_def sqrt_100)

lemma lineSequence_optimized:
  "optimizePlotterMoves (seq_moves lineSequence) False
     = Inr [mk_move Move 10 0 (Some (-45)), mk_move Draw 20 0 None]"
  by (simp add: lineSequence_def optimize_Cons mergeMove_def mk_move_def)

lemma optimize_total: "\<exists>r. optimizePlotterMoves m False = Inr r"
  by (cases m) (simp_all add: optimize_Nil optimize_Cons)

lemma all_ok_snoc:
  "all_ok hw base (cs @ [c]) \<longleftrightarrow> all_ok hw base cs \<and> (base \<le> length cs \<longrightarrow> hw (length cs))"
  by (auto simp: all_ok_def less_Suc_eq)

lemma failed_tail_last:
  "base \<le> length cs \<Longrightarrow> \<not> hw (length cs) \<Longrightarrow> failed_tail hw base (cs @ [c])"
  unfolding failed_tail_def by (rule exI [of _ "length cs"]) auto

lemma failed_tail_pair:
  "base \<le> length cs \<Longrightarrow> \<not> hw (length cs) \<Longrightarrow>
     failed_tail hw base (cs @ [c, RotateByDegrees A d sp])"
  unfolding failed_tail_def
  by (rule exI [of _ "length cs"]) (auto simp: nth_append less_Suc_eq)

lemma rotate_result:
  "rotateByDegrees hw port d sp ex = (ok, ex') \<Longrightarrow>
     ok = hw (length (hw_calls ex))
     \<and> ex' = ex \<lparr> hw_calls := hw_calls ex @ [RotateByDegrees port d sp] \<rparr>"
  by (auto simp: rotateByDegrees_def)

text \<open>The two rotations of a move, after the pen command.\<close>

lemma axes_calls:
  assumes base: "base \<le> length cs" and ok: "all_ok hw base cs"
  shows "(hw (length cs) \<and> hw (Suc (length cs)) \<longrightarrow>
            all_ok hw base (cs @ [RotateByDegrees B dx sx, RotateByDegrees A dy sy]))
       \<and> (\<not> (hw (length cs) \<and> hw (Suc (length cs))) \<longrightarrow>
            failed_tail hw base (cs @ [RotateByDegrees B dx sx, RotateByDegrees A dy sy]))"
proof (intro conjI impI)
  assume "hw (length cs) \<and> hw (Suc (length cs))"
  then show "all_ok hw base (cs @ [RotateByDegrees B dx sx, RotateByDegrees A dy sy])"
    using ok base all_ok_snoc [of hw base "cs @ [RotateByDegrees B dx sx]" "RotateByDegrees A dy sy"]
    by (simp add: all_ok_snoc)
next
  assume f: "\<not> (hw (length cs) \<and> hw (Suc (length cs)))"
  show "failed_tail hw base (cs @ [RotateByDegrees B dx sx, RotateByDegrees A dy sy])"
  proof (cases "hw (length cs)")
    case False
    then show ?thesis by (simp add: failed_tail_pair base)
  next
    case True
    with f have nf: "\<not> hw (length (cs @ [RotateByDegrees B dx sx]))" by simp
    have b: "base \<le> length (cs @ [RotateByDegrees B dx sx])" using base by simp
    have "failed_tail hw base ((cs @ [RotateByDegrees B dx sx]) @ [RotateByDegrees A dy sy])"
      using failed_tail_last [of base "cs @ [RotateByDegrees B dx sx]" hw "RotateByDegrees A dy sy"] nf b
      by blast
    then show ?thesis by simp
  qed
qed

lemma executeMove_calls:
  assumes base: "base \<le> length (hw_calls ex)" and ok: "all_ok hw base (hw_calls ex)"
    and run: "executeMove hw m ex = (res, ex')"
  shows "ex_simulationMode ex' = ex_simulationMode ex
     \<and> length (hw_calls ex) \<le> length (hw_calls ex')
     \<and> (case res of
           Inr u \<Rightarrow> all_ok hw base (hw_calls ex')
         | Inl e \<Rightarrow> failed_tail hw base (hw_calls ex'))"
proof (cases "mv_z m")
  case None
  show ?thesis
    using run axes_calls [OF base ok]
    by (auto simp: executeMove_def None rotateByDegrees_def Let_def split: if_splits)
next
  case (Some z)
  let ?cs = "hw_calls ex @ [RotateByDegrees C z (Some 30)]"
  show ?thesis
  proof (cases "hw (length (hw_calls ex))")
    case False
    have "failed_tail hw base ?cs"
      by (simp add: failed_tail_last base False)
    then show ?thesis
      using run False by (auto simp: executeMove_def Some rotateByDegrees_def Let_def)
  next
    case True
    have b: "base \<le> length ?cs" using base by simp
    have o: "all_ok hw base ?cs" using ok True by (simp add: all_ok_snoc)
    show ?thesis
      using run True axes_calls [OF b o]
      by (auto simp: executeMove_def Some rotateByDegrees_def Let_def split: if_splits)
  qed
qed

lemma executeMoves_calls:
  "\<not> ex_simulationMode ex \<Longrightarrow> base \<le> length (hw_calls ex) \<Longrightarrow> all_ok hw base (hw_calls ex) \<Longrightarrow>
     executeMoves hw ms ex = (res, ex') \<Longrightarrow>
     \<not> ex_simulationMode ex'
     \<and> length (hw_calls ex) \<le> length (hw_calls ex')
     \<and> (case res of
           Inr u \<Rightarrow> all_ok hw base (hw_calls ex')
         | Inl e \<Rightarrow> failed_tail hw base (hw_calls ex'))"
proof (induction ms arbitrary: ex)
  case Nil
  then show ?case by auto
next
  case (Cons m ms)
  obtain r1 ex1 where m1: "executeMove hw m ex = (r1, ex1)"
    by (cases "executeMove hw m ex")
  note step = executeMove_calls [OF Cons.prems(2,3) m1]
  show ?case
  proof (cases r1)
    case (Inl e)
    with Cons.prems(1,4) m1 have "res = Inl e" "ex' = ex1" by simp_all
    with step Inl Cons.prems(1) show ?thesis by simp
  next
    case (Inr u)
    with Cons.prems(1,4) m1 have rest: "executeMoves hw ms ex1 = (res, ex')" by simp
    have "\<not> ex_simulationMode ex1" using step Cons.prems(1) by simp
    moreover have "base \<le> length (hw_calls ex1)" using step Cons.prems(2) by simp
    moreover have "all_ok hw base (hw_calls ex1)" using step Inr by simp
    ultimately have "\<not> ex_simulationMode ex'
       \<and> length (hw_calls ex1) \<le> length (hw_calls ex')
       \<and> (case res of
             Inr u \<Rightarrow> all_ok hw base (hw_calls ex')
           | Inl e \<Rightarrow> failed_tail hw base (hw_calls ex'))"
      using rest by (rule Cons.IH)
    with step show ?thesis by simp
  qed
qed

text \<open>
  C4, as stated: outside simulation mode the pen axis is commanded to rotate to 0 before
  \<open>executeSequence\<close> returns or rethrows, also when a move fails. Pen down at (10,0),
  then a line to (20,0), with the rotation of axis B for the line rejected (call number
  3): \<open>executeSequence\<close> rethrows, and the pen axis was last commanded to -45 (down); no
  rotation of C to 0 was commanded.
\<close>

theorem C4_pen_up_counterexample:
  "executeSequence (\<lambda>k. k \<noteq> 3) lineSequence plainExecutor
     = (Inl (Plotter_failure 3),
        plainExecutor \<lparr> currentX := 10, currentY := 0,
          hw_calls := [RotateByDegrees C (-45) (Some 30), RotateByDegrees B 100 (Some 500),
                       RotateByDegrees A 0 (Some 0), RotateByDegrees B 100 (Some 300),
                       RotateByDegrees A 0 (Some 0)] \<rparr>)
   \<and> \<not> ex_simulationMode plainExecutor"
  unfolding executeSequence_def
  apply (simp only: lineSequence_valid lineSequence_optimized Let_def)
  apply (simp add: executeMove_def rotateByDegrees_def plainExecutor_def mk_move_def
      axisSpeed_def DEFAULT_CALIBRATION_def sqrt_100 Let_def)
  done

text \<open>The commands of a run of \<open>executeSequence\<close> outside simulation mode.\<close>

lemma executeSequence_calls:
  "\<not> ex_simulationMode ex \<Longrightarrow> executeSequence hw sq ex = (res, ex') \<Longrightarrow>
     (case res of
        Inr u \<Rightarrow>
          hw_calls ex' \<noteq> [] \<and> last (hw_calls ex') = RotateByDegrees C 0 (Some 30)
          \<and> length (hw_calls ex) < length (hw_calls ex')
          \<and> all_ok hw (length (hw_calls ex)) (hw_calls ex')
      | Inl e \<Rightarrow>
          hw_calls ex' = hw_calls ex
          \<or> failed_tail hw (length (hw_calls ex)) (hw_calls ex'))"
proof -
  assume ns: "\<not> ex_simulationMode ex" and run: "executeSequence hw sq ex = (res, ex')"
  let ?base = "length (hw_calls ex)"
  show ?thesis
  proof (cases "valid (validateSequence (ex_validator ex) sq)")
    case False
    with run show ?thesis by (auto simp: executeSequence_def Let_def)
  next
    case True
    obtain ms where opt: "optimizePlotterMoves (seq_moves sq) False = Inr ms"
      using optimize_total by blast
    obtain r1 ex1 where loop: "executeMoves hw ms ex = (r1, ex1)"
      by (cases "executeMoves hw ms ex")
    have ok0: "all_ok hw ?base (hw_calls ex)"
      by (auto simp: all_ok_def)
    note l = executeMoves_calls [OF ns order_refl ok0 loop]
    show ?thesis
    proof (cases r1)
      case (Inl e)
      with run True opt loop have "res = Inl e" "ex' = ex1"
        by (simp_all add: executeSequence_def Let_def)
      with l Inl show ?thesis by simp
    next
      case (Inr u)
      let ?cs = "hw_calls ex1 @ [RotateByDegrees C 0 (Some 30)]"
      have ns1: "\<not> ex_simulationMode ex1" using l by simp
      have b1: "?base \<le> length (hw_calls ex1)" using l by simp
      have o1: "all_ok hw ?base (hw_calls ex1)" using l Inr by simp
      show ?thesis
      proof (cases "hw (length (hw_calls ex1))")
        case True
        with run \<open>valid _\<close> opt loop Inr ns1
        have "res = Inr ()" "hw_calls ex' = ?cs"
          by (auto simp: executeSequence_def Let_def rotateByDegrees_def)
        moreover have "all_ok hw ?base ?cs"
          using o1 True by (simp add: all_ok_snoc)
        ultimately show ?thesis using b1 by simp
      next
        case False
        with run \<open>valid _\<close> opt loop Inr ns1
        have "res = Inl (Plotter_failure (length (hw_calls ex1)))" "hw_calls ex' = ?cs"
          by (auto simp: executeSequence_def Let_def rotateByDegrees_def)
        moreover have "failed_tail hw ?base ?cs"
          by (simp add: failed_tail_last b1 False)
        ultimately show ?thesis by simp
      qed
    qed
  qed
qed

lemma executeSequence_invalid:
  "\<not> valid (validateSequence (ex_validator ex) sq) \<Longrightarrow>
     executeSequence hw sq ex
       = (Inl (Invalid_sequence (reason (validateSequence (ex_validator ex) sq))), ex)"
  by (simp add: executeSequence_def Let_def)

lemma executeSequence_Inr_valid:
  "executeSequence hw sq ex = (Inr u, ex') \<Longrightarrow> valid (validateSequence (ex_validator ex) sq)"
  by (rule ccontr) (simp add: executeSequence_invalid)

lemma failed_tail_needs_failure: "failed_tail hw base calls \<Longrightarrow> \<exists>k. \<not> hw k"
  by (auto simp: failed_tail_def)

lemma executeSequence_all_ok:
  assumes ns: "\<not> ex_simulationMode ex"
    and v: "valid (validateSequence (ex_validator ex) sq)"
    and hw: "\<forall>k. hw k"
    and run: "executeSequence hw sq ex = (res, ex')"
  shows "res = Inr ()"
proof -
  obtain ms where opt: "optimizePlotterMoves (seq_moves sq) False = Inr ms"
    using optimize_total by blast
  obtain r1 ex1 where loop: "executeMoves hw ms ex = (r1, ex1)"
    by (cases "executeMoves hw ms ex")
  have ok0: "all_ok hw (length (hw_calls ex)) (hw_calls ex)"
    using hw by (simp add: all_ok_def)
  note l = executeMoves_calls [OF ns order_refl ok0 loop]
  have r1: "r1 = Inr ()"
  proof (cases r1)
    case (Inl e)
    with l have "failed_tail hw (length (hw_calls ex)) (hw_calls ex1)" by simp
    with hw show ?thesis using failed_tail_needs_failure by blast
  next
    case (Inr u)
    then show ?thesis by simp
  qed
  have "\<not> ex_simulationMode ex1" using l by simp
  then show ?thesis
    using run v opt loop r1 hw
    by (auto simp: executeSequence_def Let_def rotateByDegrees_def)
qed

text \<open>
  C4, amended: outside simulation mode, when the validation and every command of every
  move succeed, the last command \<open>executeSequence\<close> issues before it returns is the
  pen-up rotation of port C to 0 (and it returns only if that command succeeds too).
  When it rethrows, either nothing was commanded, or a command was rejected and nothing
  was commanded after it except the rotation of axis A started together with a rejected
  rotation of axis B: no pen-up follows a failed move. A sequence that fails the
  validation is rejected with the validation's reason before anything is commanded;
  a sequence that passes it returns normally when no command is rejected.
\<close>

theorem C4_pen_up_on_success:
  "\<not> ex_simulationMode ex \<Longrightarrow> executeSequence hw sq ex = (res, ex') \<Longrightarrow>
     (case res of
        Inr u \<Rightarrow>
          hw_calls ex' \<noteq> [] \<and> last (hw_calls ex') = RotateByDegrees C 0 (Some 30)
          \<and> length (hw_calls ex) < length (hw_calls ex')
          \<and> all_ok hw (length (hw_calls ex)) (hw_calls ex')
      | Inl e \<Rightarrow>
          hw_calls ex' = hw_calls ex
          \<or> failed_tail hw (length (hw_calls ex)) (hw_calls ex'))
     \<and> (\<not> valid (validateSequence (ex_validator ex) sq) \<longrightarrow>
           res = Inl (Invalid_sequence (reason (validateSequence (ex_validator ex) sq)))
           \<and> ex' = ex)
     \<and> (valid (validateSequence (ex_validator ex) sq) \<and> (\<forall>k. hw k) \<longrightarrow> res = Inr ())
     \<and> (res = Inr () \<longrightarrow> valid (validateSequence (ex_validator ex) sq))"
proof -
  assume ns: "\<not> ex_simulationMode ex" and run: "executeSequence hw sq ex = (res, ex')"
  note calls = executeSequence_calls [OF ns run]
  have inv: "res = Inl (Invalid_sequence (reason (validateSequence (ex_validator ex) sq)))
      \<and> ex' = ex"
    if "\<not> valid (validateSequence (ex_validator ex) sq)"
    using executeSequence_invalid [OF that, of hw] run by simp
  have ok: "res = Inr ()"
    if "valid (validateSequence (ex_validator ex) sq) \<and> (\<forall>k. hw k)"
    using executeSequence_all_ok [OF ns _ _ run] that by blast
  have val: "valid (validateSequence (ex_validator ex) sq)" if "res = Inr ()"
    using executeSequence_Inr_valid [of hw sq ex "()" ex'] run that by simp
  show ?thesis
    using calls inv ok val by blast
qed

theorem C4_pen_up_on_success_witness:
  "\<not> ex_simulationMode plainExecutor
   \<and> executeSequence (\<lambda>k. True) lineSequence plainExecutor
       = (Inr (),
          plainExecutor \<lparr> currentX := 20, currentY := 0,
            hw_calls := [RotateByDegrees C (-45) (Some 30), RotateByDegrees B 100 (Some 500),
                         RotateByDegrees A 0 (Some 0), RotateByDegrees B 100 (Some 300),
                         RotateByDegrees A 0 (Some 0), RotateByDegrees C 0 (Some 30)] \<rparr>)
   \<and> last (hw_calls (plainExecutor \<lparr> currentX := 20, currentY := 0,
            hw_calls := [RotateByDegrees C (-45) (Some 30), RotateByDegrees B 100 (Some 500),
                         RotateByDegrees A 0 (Some 0), RotateByDegrees B 100 (Some 300),
                         RotateByDegrees A 0 (Some 0), RotateByDegrees C 0 (Some 30)] \<rparr>))
       = RotateByDegrees C 0 (Some 30)"
proof -
  have ns: "\<not> ex_simulationMode plainExecutor"
    by (simp add: plainExecutor_def)
  have ev: "executeSequence (\<lambda>k. True) lineSequence plainExecutor
       = (Inr (),
          plainExecutor \<lparr> currentX := 20, currentY := 0,
            hw_calls := [RotateByDegrees C (-45) (Some 30), RotateByDegrees B 100 (Some 500),
                         RotateByDegrees A 0 (Some 0), RotateByDegrees B 100 (Some 300),
                         RotateByDegrees A 0 (Some 0), RotateByDegrees C 0 (Some 30)] \<rparr>)"
    unfolding executeSequence_def
    apply (simp only: lineSequence_valid lineSequence_optimized Let_def)
    apply (simp add: executeMove_def rotateByDegrees_def plainExecutor_def mk_move_def
        axisSpeed_def DEFAULT_CALIBRATION_def sqrt_100 Let_def)
    done
  show ?thesis
    using C4_pen_up_on_success [OF ns ev] ns ev by simp
qed

end
